theory Spec2Isabelle
  imports Complex_Main "HOL-Library.Word" "HOL-Library.Multiset"
begin

unbundle bit_operations_syntax

section \<open>The S-DES style cipher of class \<open>SDES\<close>\<close>

text \<open>
  A shallow embedding of the TypeScript class \<open>SDES\<close>: the table and S-box generators,
  the key schedule, the round function, the block operations \<open>encrypt\<close> and
  \<open>decrypt\<close>, and the text operations \<open>encryptText\<close> and \<open>decryptText\<close>.

  Conventions of the embedding.
  \<^item> A \<open>number[]\<close> holding bits or table indices is an \<open>int list\<close>; the entries of an
    S-box (shuffles of \<open>[0, 1, 2, 3]\<close>) are \<open>nat\<close>. Only integer numbers occur.
  \<^item> A JavaScript string is the list of its UTF-16 code units, each a \<open>nat\<close>.
  \<^item> JavaScript never fails on an array read outside the bounds: the read evaluates to
    \<open>undefined\<close> and the program goes on (\<open>undefined\<close> is coerced to \<open>0\<close> by \<open>^\<close> and
    \<open><<\<close>, to \<open>NaN\<close> by \<open>+\<close>, and indexing it throws a \<open>TypeError\<close>). Integers cannot
    carry these values, so the embedding stops at the first place where one would
    arise and returns it as an error value: \<open>Inl Undefined\<close> for a read outside the
    bounds, \<open>Inl NaN\<close> for a string that is not a number, \<open>Inl Hole\<close> for an array
    that keeps an unassigned slot, \<open>Inl TypeError\<close> for the exception that is really
    thrown. A result \<open>Inr v\<close> therefore says: every array and matrix read was in
    range, and the program returns \<open>v\<close>.
  \<^item> \<open>Math.random()\<close> is a stream of rationals, consumed from the front; its contract
    \<open>0 \<le> u < 1\<close> is the predicate \<open>rng_ok\<close>. The product \<open>Math.random() * n\<close> is taken
    exactly (the rounding of the floating-point product is not modelled).
\<close>

subsection \<open>Values that are not integers, and sequencing\<close>

datatype error = Undefined | NaN | Hole | TypeError

fun bindE :: "error + 'a \<Rightarrow> ('a \<Rightarrow> error + 'b) \<Rightarrow> error + 'b" where
  "bindE (Inl e) f = Inl e"
| "bindE (Inr x) f = f x"

text \<open>\<open>array.map(f)\<close> where the callback may meet a value outside the integers.\<close>

fun mapE :: "('a \<Rightarrow> error + 'b) \<Rightarrow> 'a list \<Rightarrow> error + 'b list" where
  "mapE f [] = Inr []"
| "mapE f (x # xs) =
     (case f x of
        Inl e \<Rightarrow> Inl e
      | Inr y \<Rightarrow> (case mapE f xs of Inl e \<Rightarrow> Inl e | Inr ys \<Rightarrow> Inr (y # ys)))"

text \<open>The read \<open>xs[i]\<close>: \<open>undefined\<close> outside \<open>0 .. xs.length - 1\<close>.\<close>

definition elem_at :: "'a list \<Rightarrow> int \<Rightarrow> error + 'a" where
  "elem_at xs i = (if 0 \<le> i \<and> i < int (length xs) then Inr (xs ! nat i) else Inl Undefined)"

text \<open>\<open>xs.slice(a, b)\<close> for \<open>0 \<le> a\<close> and \<open>0 \<le> b\<close>; both ends are clamped to the length.\<close>

definition slice_js :: "'a list \<Rightarrow> nat \<Rightarrow> nat \<Rightarrow> 'a list" where
  "slice_js xs a b = drop a (take b xs)"

text \<open>\<open>a ^ b\<close> and \<open>a << 1\<close>: both operands are taken to 32-bit two's complement.\<close>

definition bitxor :: "int \<Rightarrow> int \<Rightarrow> int" where
  "bitxor a b = sint ((word_of_int a :: 32 word) XOR word_of_int b)"

definition shl1 :: "int \<Rightarrow> int" where
  "shl1 a = sint (push_bit 1 (word_of_int a :: 32 word))"

subsection \<open>Strings of digits\<close>

type_synonym jstring = "nat list"

text \<open>\<open>n.toString(2)\<close> for a non-negative integer: binary digits, most significant first.\<close>

fun toString2 :: "nat \<Rightarrow> jstring" where
  "toString2 n = (if n < 2 then [48 + n] else toString2 (n div 2) @ [48 + n mod 2])"

declare toString2.simps [simp del]

text \<open>\<open>n.toString()\<close> of an integer, as \<open>join\<close> renders array elements.\<close>

fun toString10 :: "nat \<Rightarrow> jstring" where
  "toString10 n = (if n < 10 then [48 + n] else toString10 (n div 10) @ [48 + n mod 10])"

declare toString10.simps [simp del]

definition num_toString :: "int \<Rightarrow> jstring" where
  "num_toString i = (if i < 0 then 45 # toString10 (nat (- i)) else toString10 (nat i))"

text \<open>\<open>s.padStart(n, "0")\<close>.\<close>

definition padStart :: "nat \<Rightarrow> jstring \<Rightarrow> jstring" where
  "padStart n s = replicate (n - length s) 48 @ s"

text \<open>
  \<open>Number(c)\<close> and \<open>parseInt(c)\<close> of a string of one character, as the callbacks of
  \<open>split("").map(...)\<close> receive it: a decimal digit is its value, anything else is
  \<open>NaN\<close> (white space, which \<open>Number\<close> reads as \<open>0\<close>, does not occur in the strings of
  digits these callbacks are applied to).
\<close>

definition digit_of :: "nat \<Rightarrow> error + int" where
  "digit_of c = (if 48 \<le> c \<and> c \<le> 57 then Inr (int c - 48) else Inl NaN)"

text \<open>
  \<open>parseInt(s, 2)\<close>: an optional sign, then the longest prefix of binary digits;
  \<open>NaN\<close> when that prefix is empty. (Leading white space is skipped by JavaScript; the
  strings parsed here are joined integers and contain none.)
\<close>

definition parseInt2 :: "jstring \<Rightarrow> error + int" where
  "parseInt2 s =
     (let neg = (case s of [] \<Rightarrow> False | c # _ \<Rightarrow> c = 45);
          t = (case s of [] \<Rightarrow> [] | c # r \<Rightarrow> if c = 45 \<or> c = 43 then r else s);
          ds = takeWhile (\<lambda>c. c = 48 \<or> c = 49) t;
          v = foldl (\<lambda>acc c. 2 * acc + (int c - 48)) 0 ds
      in if ds = [] then Inl NaN else Inr (if neg then - v else v))"

text \<open>\<open>String.fromCharCode(n)\<close>: one code unit, \<open>n\<close> modulo \<open>2^16\<close>.\<close>

definition fromCharCode :: "int \<Rightarrow> jstring" where
  "fromCharCode n = [nat (n mod 65536)]"

subsection \<open>The random source\<close>

type_synonym rng = "nat \<Rightarrow> rat"

definition rng_ok :: "rng \<Rightarrow> bool" where
  "rng_ok r = (\<forall>i. 0 \<le> r i \<and> r i < 1)"

text \<open>\<open>Math.random()\<close>: the next value, and the rest of the stream.\<close>

definition math_random :: "rng \<Rightarrow> rat \<times> rng" where
  "math_random r = (r 0, \<lambda>i. r (Suc i))"

subsection \<open>The cipher state\<close>

record subkeys =
  key1 :: "int list"
  key2 :: "int list"

record sdes =
  key :: "int list"
  IP :: "int list"
  IPInverse :: "int list"
  P10 :: "int list"
  P8 :: "int list"
  P4 :: "int list"
  BOX_1 :: "nat list list"
  BOX_2 :: "nat list list"
  subKeys :: subkeys

subsection \<open>Generators\<close>

definition getInitialPermutation :: "int list" where
  "getInitialPermutation = map (\<lambda>i. int i + 1) [0..<8]"

text \<open>
  The store \<open>a[i] = v\<close> on an array with holes (\<open>None\<close>): inside the bounds it replaces
  the slot, beyond the end JavaScript extends the array with holes, and a negative
  index sets a property that is no element.
\<close>

definition store :: "'a option list \<Rightarrow> int \<Rightarrow> 'a \<Rightarrow> 'a option list" where
  "store a i v =
     (if i < 0 then a
      else if nat i < length a then a[nat i := Some v]
      else a @ replicate (nat i - length a) None @ [Some v])"

text \<open>The loop of \<open>getArrayInverse\<close>, from index \<open>i\<close> on; \<open>k\<close> counts the iterations left.\<close>

fun inverse_loop :: "nat \<Rightarrow> int list \<Rightarrow> nat \<Rightarrow> int option list \<Rightarrow> error + int option list" where
  "inverse_loop 0 ip i arr = Inr arr"
| "inverse_loop (Suc k) ip i arr =
     bindE (elem_at ip (int i)) (\<lambda>x. inverse_loop k ip (i + 1) (store arr (x - 1) (int i + 1)))"

definition getArrayInverse :: "int list \<Rightarrow> error + int list" where
  "getArrayInverse ip =
     bindE (inverse_loop (length ip) ip 0 (replicate (length ip) None))
       (\<lambda>arr. if list_all (\<lambda>x. x \<noteq> None) arr then Inr (map the arr) else Inl Hole)"

text \<open>
  \<open>shuffleArray\<close>: the loop \<open>for (i = array.length - 1; i > 0; i--)\<close>, entered with
  loop variable \<open>i\<close>.
\<close>

fun shuffle_loop :: "nat \<Rightarrow> 'a list \<Rightarrow> rng \<Rightarrow> error + ('a list \<times> rng)" where
  "shuffle_loop 0 a r = Inr (a, r)"
| "shuffle_loop (Suc i) a r =
     (let (u, r') = math_random r;
          j = \<lfloor>u * of_nat (Suc i + 1)\<rfloor>
      in bindE (elem_at a j) (\<lambda>aj.
         bindE (elem_at a (int (Suc i))) (\<lambda>ai.
         shuffle_loop i ((a[Suc i := aj])[nat j := ai]) r')))"

definition shuffleArray :: "'a list \<Rightarrow> rng \<Rightarrow> error + ('a list \<times> rng)" where
  "shuffleArray a r = shuffle_loop (length a - 1) a r"

text \<open>
  The filling loop of \<open>generatePermutationTable\<close>: \<open>k\<close> slots are still to be filled,
  each with \<open>Math.floor(Math.random() * length) + 1\<close>.
\<close>

fun fill_loop :: "nat \<Rightarrow> nat \<Rightarrow> rng \<Rightarrow> int list \<times> rng" where
  "fill_loop 0 len r = ([], r)"
| "fill_loop (Suc k) len r =
     (let (u, r') = math_random r;
          x = \<lfloor>u * of_nat len\<rfloor> + 1;
          (rest, r'') = fill_loop k len r'
      in (x # rest, r''))"

definition generatePermutationTable :: "nat \<Rightarrow> rng \<Rightarrow> error + (int list \<times> rng)" where
  "generatePermutationTable len r =
     (let (table, r') = fill_loop len len r in shuffleArray table r')"

text \<open>The loop of \<open>generateSBox\<close>: \<open>k\<close> rows are still to be made.\<close>

fun sbox_loop :: "nat \<Rightarrow> rng \<Rightarrow> error + (nat list list \<times> rng)" where
  "sbox_loop 0 r = Inr ([], r)"
| "sbox_loop (Suc k) r =
     bindE (shuffleArray [0, 1, 2, 3] r) (\<lambda>(row, r').
     bindE (sbox_loop k r') (\<lambda>(rows, r'').
     Inr (row # rows, r'')))"

definition generateSBox :: "rng \<Rightarrow> error + (nat list list \<times> rng)" where
  "generateSBox r = sbox_loop 4 r"

subsection \<open>Permutation, shift and key schedule\<close>

definition permute :: "'a list \<Rightarrow> int list \<Rightarrow> error + 'a list" where
  "permute input permutationTable = mapE (\<lambda>index. elem_at input (index - 1)) permutationTable"

definition circularLeftShift :: "'a list \<Rightarrow> nat \<Rightarrow> 'a list" where
  "circularLeftShift input shiftNumber =
     drop shiftNumber input @ slice_js input 0 shiftNumber"

text \<open>\<open>generateSubKeys\<close> reads \<open>this.key\<close>, \<open>this.P10\<close> and \<open>this.P8\<close>.\<close>

definition generateSubKeys :: "int list \<Rightarrow> int list \<Rightarrow> int list \<Rightarrow> error + subkeys" where
  "generateSubKeys k p10 p8 =
     bindE (permute k p10) (\<lambda>permutedKey.
     let left = slice_js permutedKey 0 5;
         right = slice_js permutedKey 5 10;
         left1 = circularLeftShift left 1;
         right1 = circularLeftShift right 1
     in bindE (permute (left1 @ right1) p8) (\<lambda>k1.
        let left2 = circularLeftShift left1 2;
            right2 = circularLeftShift right1 2
        in bindE (permute (left2 @ right2) p8) (\<lambda>k2.
           Inr \<lparr>key1 = k1, key2 = k2\<rparr>)))"

definition constructor :: "int list \<Rightarrow> rng \<Rightarrow> error + (sdes \<times> rng)" where
  "constructor k r0 =
     bindE (generatePermutationTable 4 r0) (\<lambda>(p4, r1).
     bindE (generatePermutationTable 8 r1) (\<lambda>(p8, r2).
     bindE (generatePermutationTable 10 r2) (\<lambda>(p10, r3).
     bindE (getArrayInverse getInitialPermutation) (\<lambda>ipinv.
     bindE (generateSBox r3) (\<lambda>(b1, r4).
     bindE (generateSBox r4) (\<lambda>(b2, r5).
     bindE (generateSubKeys k p10 p8) (\<lambda>sk.
     Inr (\<lparr>key = k, IP = getInitialPermutation, IPInverse = ipinv,
           P10 = p10, P8 = p8, P4 = p4, BOX_1 = b1, BOX_2 = b2, subKeys = sk\<rparr>, r5))))))))"

subsection \<open>The round function\<close>

definition expandAndPermute :: "int list \<Rightarrow> error + int list" where
  "expandAndPermute right = permute right [4, 1, 2, 3, 2, 3, 4, 1]"

text \<open>\<open>bits1.map((bit, i) => bit ^ bits2[i])\<close>.\<close>

definition xor_bits :: "int list \<Rightarrow> int list \<Rightarrow> error + int list" where
  "xor_bits bits1 bits2 =
     mapE (\<lambda>(bit, i). bindE (elem_at bits2 (int i)) (\<lambda>b2. Inr (bitxor bit b2)))
       (zip bits1 [0..<length bits1])"

text \<open>
  \<open>box[row][col].toString(2).padStart(2, "0").split("").map(Number)\<close>: a row or a
  column outside the matrix makes JavaScript index or call \<open>undefined\<close>, which throws.
\<close>

definition box_bits :: "nat list list \<Rightarrow> int \<Rightarrow> int \<Rightarrow> error + int list" where
  "box_bits box row col =
     (case elem_at box row of
        Inl _ \<Rightarrow> Inl TypeError
      | Inr line \<Rightarrow>
          (case elem_at line col of
             Inl _ \<Rightarrow> Inl TypeError
           | Inr v \<Rightarrow> mapE digit_of (padStart 2 (toString2 v))))"

definition sBox :: "sdes \<Rightarrow> int list \<Rightarrow> error + int list" where
  "sBox C input =
     (let leftInput = slice_js input 0 4;
          rightInput = slice_js input 4 8
      in bindE (elem_at leftInput 0) (\<lambda>l0. bindE (elem_at leftInput 3) (\<lambda>l3.
         bindE (elem_at leftInput 1) (\<lambda>l1. bindE (elem_at leftInput 2) (\<lambda>l2.
         bindE (elem_at rightInput 0) (\<lambda>r0. bindE (elem_at rightInput 3) (\<lambda>r3.
         bindE (elem_at rightInput 1) (\<lambda>r1. bindE (elem_at rightInput 2) (\<lambda>r2.
         let row1 = shl1 l0 + l3;
             col1 = shl1 l1 + l2;
             row2 = shl1 r0 + r3;
             col2 = shl1 r1 + r2
         in bindE (box_bits (BOX_1 C) row1 col1) (\<lambda>sBox1Result.
            bindE (box_bits (BOX_2 C) row2 col2) (\<lambda>sBox2Result.
            Inr (sBox1Result @ sBox2Result))))))))))))"

text \<open>\<open>input.map((_, i) => input[this.P4[i] - 1])\<close>.\<close>

definition p4Permutation :: "sdes \<Rightarrow> 'a list \<Rightarrow> error + 'a list" where
  "p4Permutation C input =
     mapE (\<lambda>i. bindE (elem_at (P4 C) (int i)) (\<lambda>p. elem_at input (p - 1)))
       [0..<length input]"

definition round_fn :: "sdes \<Rightarrow> int list \<Rightarrow> int list \<Rightarrow> int list \<Rightarrow> error + (int list \<times> int list)" where
  "round_fn C left right k =
     bindE (expandAndPermute right) (\<lambda>expandedRight.
     bindE (xor_bits expandedRight k) (\<lambda>xorResult.
     bindE (sBox C xorResult) (\<lambda>sBoxResult.
     bindE (p4Permutation C sBoxResult) (\<lambda>p4Result.
     bindE (xor_bits left p4Result) (\<lambda>newLeft.
     Inr (newLeft, right))))))"

subsection \<open>Block operations\<close>

definition encrypt :: "sdes \<Rightarrow> int list \<Rightarrow> error + int list" where
  "encrypt C val =
     bindE (permute val (IP C)) (\<lambda>data.
     let left = slice_js data 0 4;
         right = slice_js data 4 8
     in bindE (round_fn C left right (key1 (subKeys C))) (\<lambda>(left1, right1).
        bindE (round_fn C right1 left1 (key2 (subKeys C))) (\<lambda>(left2, right2).
        permute (left2 @ right2) (IPInverse C))))"

definition decrypt :: "sdes \<Rightarrow> int list \<Rightarrow> error + int list" where
  "decrypt C ciphertext =
     bindE (permute ciphertext (IP C)) (\<lambda>data.
     let left = slice_js data 0 4;
         right = slice_js data 4 8
     in bindE (round_fn C left right (key2 (subKeys C))) (\<lambda>(left1, right1).
        bindE (round_fn C right1 left1 (key1 (subKeys C))) (\<lambda>(left2, right2).
        permute (left2 @ right2) (IPInverse C))))"

subsection \<open>Text operations\<close>

definition stringToBinary :: "jstring \<Rightarrow> error + int list" where
  "stringToBinary input =
     mapE digit_of (concat (map (\<lambda>c. padStart 8 (toString2 c)) input))"

text \<open>
  The loop \<open>for (i = 0; i < binaryString.length; i += 8)\<close> of \<open>binaryToString\<close>, from
  index \<open>i\<close> on, with the output so far.
\<close>

function string_loop :: "jstring \<Rightarrow> nat \<Rightarrow> jstring \<Rightarrow> error + jstring" where
  "string_loop binaryString i output =
     (if i < length binaryString
      then (case parseInt2 (slice_js binaryString i (i + 8)) of
              Inl e \<Rightarrow> Inl e
            | Inr n \<Rightarrow> string_loop binaryString (i + 8) (output @ fromCharCode n))
      else Inr output)"
  by pat_completeness auto
termination
  by (relation "measure (\<lambda>(s, i, out). length s - i)") auto

declare string_loop.simps [simp del]

definition binaryToString :: "int list \<Rightarrow> error + jstring" where
  "binaryToString input = string_loop (concat (map num_toString input)) 0 []"

text \<open>
  The block loop of \<open>encryptText\<close> and \<open>decryptText\<close>, from index \<open>i\<close> on; \<open>f\<close> is
  \<open>this.encrypt\<close> or \<open>this.decrypt\<close>.
\<close>

function block_loop :: "(int list \<Rightarrow> error + int list) \<Rightarrow> int list \<Rightarrow> nat \<Rightarrow> int list \<Rightarrow> error + int list" where
  "block_loop f bs i acc =
     (if i < length bs
      then (case f (slice_js bs i (i + 8)) of
              Inl e \<Rightarrow> Inl e
            | Inr out \<Rightarrow> block_loop f bs (i + 8) (acc @ out))
      else Inr acc)"
  by pat_completeness auto
termination
  by (relation "measure (\<lambda>(f, bs, i, acc). length bs - i)") auto

declare block_loop.simps [simp del]

definition encryptText :: "sdes \<Rightarrow> jstring \<Rightarrow> error + jstring" where
  "encryptText C plaintext =
     bindE (stringToBinary plaintext) (\<lambda>binaryPlaintext.
     bindE (block_loop (encrypt C) binaryPlaintext 0 []) binaryToString)"

definition decryptText :: "sdes \<Rightarrow> jstring \<Rightarrow> error + jstring" where
  "decryptText C ciphertext =
     bindE (stringToBinary ciphertext) (\<lambda>binaryEncryptedText.
     bindE (block_loop (decrypt C) binaryEncryptedText 0 []) binaryToString)"

subsection \<open>Well-formed inputs and states\<close>

text \<open>A bit vector of length \<open>n\<close>: \<open>n\<close> numbers, each 0 or 1.\<close>

definition is_bits :: "nat \<Rightarrow> int list \<Rightarrow> bool" where
  "is_bits n v = (length v = n \<and> list_all (\<lambda>b. b = 0 \<or> b = 1) v)"

text \<open>A table of length \<open>n\<close> with entries in \<open>[1, n]\<close>; an S-box of 4 rows of 4 entries in \<open>0 .. 3\<close>.\<close>

definition table_ok :: "nat \<Rightarrow> int list \<Rightarrow> bool" where
  "table_ok n t = (length t = n \<and> list_all (\<lambda>x. 1 \<le> x \<and> x \<le> int n) t)"

definition sbox_ok :: "nat list list \<Rightarrow> bool" where
  "sbox_ok box = (length box = 4 \<and> list_all (\<lambda>line. length line = 4 \<and> list_all (\<lambda>v. v < 4) line) box)"

text \<open>
  The parts of a cipher state that the round function reads, and a whole cipher state:
  a 10-bit key, tables P4, P8, P10, IP and IPInverse of lengths 4, 8, 10, 8 and 8 with
  entries in range, two S-boxes, and the subkeys that the key schedule derives.
\<close>

definition round_state_ok :: "sdes \<Rightarrow> bool" where
  "round_state_ok C = (table_ok 4 (P4 C) \<and> sbox_ok (BOX_1 C) \<and> sbox_ok (BOX_2 C))"

definition state_ok :: "sdes \<Rightarrow> bool" where
  "state_ok C =
     (is_bits 10 (key C) \<and> table_ok 8 (IP C) \<and> table_ok 8 (IPInverse C) \<and>
      table_ok 10 (P10 C) \<and> table_ok 8 (P8 C) \<and> round_state_ok C \<and>
      generateSubKeys (key C) (P10 C) (P8 C) = Inr (subKeys C))"

definition single_byte :: "jstring \<Rightarrow> bool" where
  "single_byte s = list_all (\<lambda>c. c \<le> 255) s"

subsection \<open>The specification's description of the key schedule and the round\<close>

text \<open>
  These definitions follow the words of the specification, not the code; the theorems
  below compare them with the functions above. Applying a table: output position \<open>i\<close>
  holds the input bit at position \<open>table[i] - 1\<close>.
\<close>

definition spec_permute :: "'a list \<Rightarrow> int list \<Rightarrow> 'a list" where
  "spec_permute v table = map (\<lambda>t. v ! nat (t - 1)) table"

definition spec_xor :: "int list \<Rightarrow> int list \<Rightarrow> int list" where
  "spec_xor a b = map (\<lambda>(x, y). if x = y then 0 else 1) (zip a b)"

text \<open>
  Key schedule: P10, halves of 5 bits, circular left shift by 1, P8 gives key1; a further
  shift by 2 of the shifted halves, P8 gives key2.
\<close>

definition spec_key1 :: "int list \<Rightarrow> int list \<Rightarrow> int list \<Rightarrow> int list" where
  "spec_key1 k p10 p8 =
     (let pk = spec_permute k p10
      in spec_permute (rotate 1 (take 5 pk) @ rotate 1 (drop 5 pk)) p8)"

definition spec_key2 :: "int list \<Rightarrow> int list \<Rightarrow> int list \<Rightarrow> int list" where
  "spec_key2 k p10 p8 =
     (let pk = spec_permute k p10
      in spec_permute (rotate 2 (rotate 1 (take 5 pk)) @ rotate 2 (rotate 1 (drop 5 pk))) p8)"

text \<open>
  Round: expansion by the pattern \<open>[4,1,2,3,2,3,4,1]\<close>, XOR with the subkey, the S-boxes
  (row from bits 0 and 3, column from bits 1 and 2, the value as two bits, the
  most significant first), P4, XOR with the left half.
\<close>

definition spec_expand :: "int list \<Rightarrow> int list" where
  "spec_expand r = spec_permute r [4, 1, 2, 3, 2, 3, 4, 1]"

definition spec_box :: "nat list list \<Rightarrow> int list \<Rightarrow> int list" where
  "spec_box box h =
     (let row = nat (h ! 0 * 2 + h ! 3);
          col = nat (h ! 1 * 2 + h ! 2);
          v = box ! row ! col
      in [int (v div 2), int (v mod 2)])"

definition spec_sbox :: "sdes \<Rightarrow> int list \<Rightarrow> int list" where
  "spec_sbox C x = spec_box (BOX_1 C) (take 4 x) @ spec_box (BOX_2 C) (drop 4 x)"

definition spec_f :: "sdes \<Rightarrow> int list \<Rightarrow> int list \<Rightarrow> int list" where
  "spec_f C r sk = spec_permute (spec_sbox C (spec_xor (spec_expand r) sk)) (P4 C)"

definition spec_new_left :: "sdes \<Rightarrow> int list \<Rightarrow> int list \<Rightarrow> int list \<Rightarrow> int list" where
  "spec_new_left C l r sk = spec_xor l (spec_f C r sk)"

text \<open>
  Block cipher: IP, split, round with the first subkey, swap, round with the second
  subkey, concatenate, IP-inverse. Encryption uses \<open>(key1, key2)\<close>, decryption
  \<open>(key2, key1)\<close>.
\<close>

definition spec_block :: "sdes \<Rightarrow> int list \<Rightarrow> int list \<Rightarrow> int list \<Rightarrow> int list" where
  "spec_block C ka kb b =
     (let d = spec_permute b (IP C);
          l = take 4 d;
          r = drop 4 d;
          l1 = spec_new_left C l r ka;
          l2 = spec_new_left C r l1 kb
      in spec_permute (l2 @ l1) (IPInverse C))"

subsection \<open>Bytes and their bits\<close>

text \<open>
  Notions used to state what the text operations compute: the number that a vector
  of bits denotes (most significant bit first), the string of the characters \<open>0\<close> and
  \<open>1\<close> that \<open>join("")\<close> makes of a vector of bits, the number that a string of binary
  digits denotes, and the 8 bits that \<open>stringToBinary\<close> emits for one character.
\<close>

definition bits_value :: "int list \<Rightarrow> int" where
  "bits_value bs = foldl (\<lambda>acc b. 2 * acc + b) 0 bs"

definition bit_chars :: "int list \<Rightarrow> jstring" where
  "bit_chars bs = map (\<lambda>b. 48 + nat b) bs"

definition chars_value :: "jstring \<Rightarrow> int" where
  "chars_value s = foldl (\<lambda>acc c. 2 * acc + (int c - 48)) 0 s"

definition byte_bits :: "nat \<Rightarrow> int list" where
  "byte_bits c = map (\<lambda>d. int d - 48) (padStart 8 (toString2 c))"

subsection \<open>A concrete instance\<close>

text \<open>
  The key of the demonstration script, and the instance that the constructor builds
  from it when every call of \<open>Math.random()\<close> returns \<open>0\<close>.
\<close>

definition demo_key :: "int list" where
  "demo_key = [0, 0, 0, 1, 0, 1, 0, 0, 1, 1]"

definition demo_rng :: rng where
  "demo_rng = (\<lambda>_. 0)"

definition demo_sdes :: sdes where
  "demo_sdes =
     \<lparr>key = [0, 0, 0, 1, 0, 1, 0, 0, 1, 1],
      IP = [1, 2, 3, 4, 5, 6, 7, 8],
      IPInverse = [1, 2, 3, 4, 5, 6, 7, 8],
      P10 = [1, 1, 1, 1, 1, 1, 1, 1, 1, 1],
      P8 = [1, 1, 1, 1, 1, 1, 1, 1],
      P4 = [1, 1, 1, 1],
      BOX_1 = [[1, 2, 3, 0], [1, 2, 3, 0], [1, 2, 3, 0], [1, 2, 3, 0]],
      BOX_2 = [[1, 2, 3, 0], [1, 2, 3, 0], [1, 2, 3, 0], [1, 2, 3, 0]],
      subKeys = \<lparr>key1 = [0, 0, 0, 0, 0, 0, 0, 0], key2 = [0, 0, 0, 0, 0, 0, 0, 0]\<rparr>\<rparr>"

definition demo_block :: "int list" where
  "demo_block = [1, 0, 1, 1, 0, 1, 0, 1]"

section \<open>Properties\<close>

subsection \<open>Reads, maps and permutations\<close>

lemma elem_at_in_range: "0 \<le> i \<Longrightarrow> i < int (length xs) \<Longrightarrow> elem_at xs i = Inr (xs ! nat i)"
  by (simp add: elem_at_def)

lemma elem_at_nat: "i < length xs \<Longrightarrow> elem_at xs (int i) = Inr (xs ! i)"
  by (simp add: elem_at_def)

lemma mapE_Inr: "(\<And>x. x \<in> set xs \<Longrightarrow> f x = Inr (g x)) \<Longrightarrow> mapE f xs = Inr (map g xs)"
  by (induction xs) auto

lemma mapE_cong: "(\<And>x. x \<in> set xs \<Longrightarrow> f x = g x) \<Longrightarrow> mapE f xs = mapE g xs"
  by (induction xs) (auto split: sum.splits)

lemma permute_in_range:
  assumes "list_all (\<lambda>t. 1 \<le> t \<and> t \<le> int (length v)) table"
  shows "permute v table = Inr (spec_permute v table)"
  unfolding permute_def spec_permute_def
proof (rule mapE_Inr)
  fix t assume "t \<in> set table"
  with assms have "1 \<le> t" "t \<le> int (length v)" by (auto simp: list_all_iff)
  then show "elem_at v (t - 1) = Inr (v ! nat (t - 1))"
    by (simp add: elem_at_def)
qed

lemma permute_table_ok:
  "table_ok n table \<Longrightarrow> n \<le> length v \<Longrightarrow> permute v table = Inr (spec_permute v table)"
  by (rule permute_in_range) (auto simp: table_ok_def list_all_iff)

lemma length_spec_permute [simp]: "length (spec_permute v table) = length table"
  by (simp add: spec_permute_def)

lemma is_bits_nth: "is_bits n a \<Longrightarrow> i < n \<Longrightarrow> a ! i = 0 \<or> a ! i = 1"
  by (simp add: is_bits_def list_all_length)

lemma is_bits_spec_permute_gen:
  assumes "list_all (\<lambda>t. 1 \<le> t \<and> t \<le> int m) table" and "is_bits m v"
  shows "is_bits (length table) (spec_permute v table)"
proof -
  have "v ! nat (t - 1) = 0 \<or> v ! nat (t - 1) = 1" if "t \<in> set table" for t
  proof -
    from that assms(1) have "1 \<le> t" "t \<le> int m" by (auto simp: list_all_iff)
    then have "nat (t - 1) < m" by linarith
    with assms(2) show ?thesis by (rule is_bits_nth)
  qed
  then show ?thesis
    by (simp add: is_bits_def spec_permute_def list_all_iff)
qed

lemma is_bits_spec_permute:
  "table_ok n table \<Longrightarrow> is_bits m v \<Longrightarrow> n \<le> m \<Longrightarrow> is_bits n (spec_permute v table)"
proof -
  assume t: "table_ok n table" and v: "is_bits m v" and le: "n \<le> m"
  have "list_all (\<lambda>t. 1 \<le> t \<and> t \<le> int m) table"
    using t le by (auto simp: table_ok_def list_all_iff)
  from is_bits_spec_permute_gen [OF this v] show ?thesis
    using t by (simp add: table_ok_def)
qed

subsection \<open>XOR on bits\<close>

lemma bitxor_bits:
  "(a = 0 \<or> a = 1) \<Longrightarrow> (b = 0 \<or> b = 1) \<Longrightarrow> bitxor a b = (if a = b then 0 else 1)"
  by (auto simp: bitxor_def)

lemma shl1_bits: "(a = 0 \<or> a = 1) \<Longrightarrow> shl1 a = 2 * a"
  by (auto simp: shl1_def)

lemma spec_xor_nth:
  "i < length a \<Longrightarrow> i < length b \<Longrightarrow> spec_xor a b ! i = (if a ! i = b ! i then 0 else 1)"
  by (simp add: spec_xor_def)

lemma length_spec_xor [simp]: "length (spec_xor a b) = min (length a) (length b)"
  by (simp add: spec_xor_def)

lemma xor_bits_ok:
  assumes a: "is_bits n a" and b: "is_bits n b"
  shows "xor_bits a b = Inr (spec_xor a b)"
proof -
  have len: "length a = n" "length b = n"
    using a b by (simp_all add: is_bits_def)
  have "xor_bits a b = Inr (map (\<lambda>(x, i). bitxor x (b ! i)) (zip a [0..<length a]))"
    unfolding xor_bits_def
  proof (rule mapE_Inr)
    fix p assume "p \<in> set (zip a [0..<length a])"
    then have "snd p \<in> set [0..<length a]"
      using set_zip_rightD [of "fst p" "snd p" a "[0..<length a]"] by simp
    then have "snd p < length b"
      using len by simp
    then show "(case p of (x, i) \<Rightarrow> bindE (elem_at b (int i)) (\<lambda>b2. Inr (bitxor x b2)))
        = Inr (case p of (x, i) \<Rightarrow> bitxor x (b ! i))"
      by (cases p) (simp add: elem_at_nat)
  qed
  also have "map (\<lambda>(x, i). bitxor x (b ! i)) (zip a [0..<length a]) = spec_xor a b"
  proof (rule nth_equalityI)
    show "length (map (\<lambda>(x, i). bitxor x (b ! i)) (zip a [0..<length a])) = length (spec_xor a b)"
      using len by simp
  next
    fix i assume "i < length (map (\<lambda>(x, i). bitxor x (b ! i)) (zip a [0..<length a]))"
    then have i: "i < n" using len by simp
    have "bitxor (a ! i) (b ! i) = (if a ! i = b ! i then 0 else 1)"
      using is_bits_nth [OF a i] is_bits_nth [OF b i] by (rule bitxor_bits)
    then show "map (\<lambda>(x, i). bitxor x (b ! i)) (zip a [0..<length a]) ! i = spec_xor a b ! i"
      using i len by (simp add: spec_xor_nth)
  qed
  finally show ?thesis .
qed

lemma is_bits_spec_xor: "is_bits n a \<Longrightarrow> is_bits n b \<Longrightarrow> is_bits n (spec_xor a b)"
  by (simp add: is_bits_def list_all_length spec_xor_nth)

lemma spec_xor_cancel:
  assumes a: "is_bits n a" and b: "is_bits n b"
  shows "spec_xor (spec_xor a b) b = a"
proof (rule nth_equalityI)
  show "length (spec_xor (spec_xor a b) b) = length a"
    using a b by (simp add: is_bits_def)
next
  fix i assume "i < length (spec_xor (spec_xor a b) b)"
  then have i: "i < n" using a b by (simp add: is_bits_def)
  then have "i < length a" "i < length b" using a b by (simp_all add: is_bits_def)
  then show "spec_xor (spec_xor a b) b ! i = a ! i"
    using is_bits_nth [OF a i] is_bits_nth [OF b i] by (auto simp: spec_xor_nth)
qed

subsection \<open>S-boxes and the round function\<close>

lemma mapE_map: "mapE f (map g xs) = mapE (f \<circ> g) xs"
  by (induction xs) (auto split: sum.splits)

lemma list4: "length xs = 4 \<Longrightarrow> \<exists>a b c d. xs = [a, b, c, d]"
  by (auto simp: numeral_eq_Suc length_Suc_conv)

lemma list8: "length xs = 8 \<Longrightarrow> \<exists>a b c d e f g h. xs = [a, b, c, d, e, f, g, h]"
  by (auto simp: numeral_eq_Suc length_Suc_conv)

lemma two_digits: "v < 4 \<Longrightarrow> mapE digit_of (padStart 2 (toString2 v)) = Inr [int (v div 2), int (v mod 2)]"
proof -
  assume "v < 4"
  then consider "v = 0" | "v = 1" | "v = 2" | "v = 3" by linarith
  then show ?thesis
    by cases (simp_all add: toString2.simps padStart_def digit_of_def)
qed

lemma box_bits_ok:
  assumes box: "sbox_ok box" and h: "is_bits 4 h"
  shows "box_bits box (shl1 (h ! 0) + h ! 3) (shl1 (h ! 1) + h ! 2) = Inr (spec_box box h)"
proof -
  have b: "h ! 0 = 0 \<or> h ! 0 = 1" "h ! 1 = 0 \<or> h ! 1 = 1" "h ! 2 = 0 \<or> h ! 2 = 1" "h ! 3 = 0 \<or> h ! 3 = 1"
    using h by (simp_all add: is_bits_nth)
  define row where "row = nat (h ! 0 * 2 + h ! 3)"
  define col where "col = nat (h ! 1 * 2 + h ! 2)"
  have row: "shl1 (h ! 0) + h ! 3 = int row" "row < 4"
    using b by (auto simp: row_def shl1_bits)
  have col: "shl1 (h ! 1) + h ! 2 = int col" "col < 4"
    using b by (auto simp: col_def shl1_bits)
  have line: "length (box ! row) = 4" and v: "box ! row ! col < 4"
    using box row(2) col(2) by (simp_all add: sbox_ok_def list_all_length)
  have "box_bits box (int row) (int col) = Inr [int (box ! row ! col div 2), int (box ! row ! col mod 2)]"
    using box row(2) col(2) line v by (simp add: box_bits_def elem_at_nat sbox_ok_def two_digits)
  moreover have "spec_box box h = [int (box ! row ! col div 2), int (box ! row ! col mod 2)]"
    by (simp add: spec_box_def Let_def row_def col_def)
  ultimately show ?thesis
    by (simp only: row(1) col(1))
qed

lemma is_bits_spec_box:
  assumes box: "sbox_ok box" and h: "is_bits 4 h"
  shows "is_bits 2 (spec_box box h)"
proof -
  have b: "h ! 0 = 0 \<or> h ! 0 = 1" "h ! 1 = 0 \<or> h ! 1 = 1" "h ! 2 = 0 \<or> h ! 2 = 1" "h ! 3 = 0 \<or> h ! 3 = 1"
    using h by (simp_all add: is_bits_nth)
  define row where "row = nat (h ! 0 * 2 + h ! 3)"
  define col where "col = nat (h ! 1 * 2 + h ! 2)"
  have "row < 4" "col < 4" using b by (auto simp: row_def col_def)
  then have "box ! row ! col < 4"
    using box by (simp add: sbox_ok_def list_all_length)
  then have "box ! row ! col div 2 < 2" by simp
  then have "box ! row ! col div 2 = 0 \<or> box ! row ! col div 2 = 1" by linarith
  then show ?thesis
    by (auto simp: spec_box_def Let_def is_bits_def row_def col_def)
qed

lemma is_bits_take: "is_bits n v \<Longrightarrow> k \<le> n \<Longrightarrow> is_bits k (take k v)"
  by (auto simp: is_bits_def list_all_iff dest: in_set_takeD)

lemma is_bits_drop: "is_bits n v \<Longrightarrow> is_bits (n - k) (drop k v)"
  by (auto simp: is_bits_def list_all_iff dest: in_set_dropD)

lemma is_bits_append: "is_bits n a \<Longrightarrow> is_bits m b \<Longrightarrow> is_bits (n + m) (a @ b)"
  by (simp add: is_bits_def)

lemma sBox_ok:
  assumes b1: "sbox_ok (BOX_1 C)" and b2: "sbox_ok (BOX_2 C)" and x: "is_bits 8 x"
  shows "sBox C x = Inr (spec_sbox C x)"
proof -
  have l: "is_bits 4 (take 4 x)" using x by (rule is_bits_take) simp
  have r: "is_bits 4 (drop 4 x)" using is_bits_drop [OF x, of 4] by simp
  have len: "length x = 8" using x by (simp add: is_bits_def)
  have nl: "take 4 x ! 0 = x ! 0" "take 4 x ! 1 = x ! 1" "take 4 x ! 2 = x ! 2" "take 4 x ! 3 = x ! 3"
    by simp_all
  have nr: "drop 4 x ! 0 = x ! 4" "drop 4 x ! 1 = x ! 5" "drop 4 x ! 2 = x ! 6" "drop 4 x ! 3 = x ! 7"
    using len by simp_all
  have s: "slice_js x 0 4 = take 4 x" "slice_js x 4 8 = drop 4 x"
    using len by (simp_all add: slice_js_def)
  show ?thesis
    using box_bits_ok [OF b1 l] box_bits_ok [OF b2 r] len
    by (auto simp: sBox_def s Let_def elem_at_def nl nr spec_sbox_def)
qed

lemma is_bits_spec_sbox:
  assumes b1: "sbox_ok (BOX_1 C)" and b2: "sbox_ok (BOX_2 C)" and x: "is_bits 8 x"
  shows "is_bits 4 (spec_sbox C x)"
proof -
  have l: "is_bits 4 (take 4 x)" using x by (rule is_bits_take) simp
  have r: "is_bits 4 (drop 4 x)" using is_bits_drop [OF x, of 4] by simp
  show ?thesis
    using is_bits_append [OF is_bits_spec_box [OF b1 l] is_bits_spec_box [OF b2 r]]
    by (simp add: spec_sbox_def)
qed

lemma p4Permutation_permute:
  assumes "length v = length (P4 C)"
  shows "p4Permutation C v = permute v (P4 C)"
proof -
  have "p4Permutation C v = mapE (\<lambda>i. elem_at v (P4 C ! i - 1)) [0..<length (P4 C)]"
    unfolding p4Permutation_def assms
    by (rule mapE_cong) (simp add: elem_at_nat)
  also have "\<dots> = mapE ((\<lambda>index. elem_at v (index - 1)) \<circ> (\<lambda>i. P4 C ! i)) [0..<length (P4 C)]"
    by (simp add: comp_def)
  also have "\<dots> = mapE (\<lambda>index. elem_at v (index - 1)) (map (\<lambda>i. P4 C ! i) [0..<length (P4 C)])"
    by (rule mapE_map [symmetric])
  also have "\<dots> = permute v (P4 C)"
    by (simp add: permute_def map_nth)
  finally show ?thesis .
qed

lemma expandAndPermute_ok: "length r = 4 \<Longrightarrow> expandAndPermute r = Inr (spec_expand r)"
  unfolding expandAndPermute_def spec_expand_def
  by (rule permute_in_range) simp

lemma is_bits_spec_expand: "is_bits 4 r \<Longrightarrow> is_bits 8 (spec_expand r)"
  unfolding spec_expand_def
  using is_bits_spec_permute_gen [of 4 "[4, 1, 2, 3, 2, 3, 4, 1]" r] by (simp add: is_bits_def)

lemma is_bits_length: "is_bits n v \<Longrightarrow> length v = n"
  by (simp add: is_bits_def)

lemma is_bits_spec_f:
  assumes C: "round_state_ok C" and r: "is_bits 4 r" and k: "is_bits 8 k"
  shows "is_bits 4 (spec_f C r k)"
proof -
  have x: "is_bits 8 (spec_xor (spec_expand r) k)"
    using is_bits_spec_expand [OF r] k by (rule is_bits_spec_xor)
  have "is_bits 4 (spec_sbox C (spec_xor (spec_expand r) k))"
    using C x by (simp add: round_state_ok_def is_bits_spec_sbox)
  then show ?thesis
    unfolding spec_f_def using C
    by (intro is_bits_spec_permute [where m = 4]) (simp_all add: round_state_ok_def)
qed

lemma round_fn_eq:
  assumes C: "round_state_ok C" and l: "is_bits 4 l" and r: "is_bits 4 r" and k: "is_bits 8 k"
  shows "round_fn C l r k = Inr (spec_new_left C l r k, r)"
proof -
  have e: "expandAndPermute r = Inr (spec_expand r)"
    using r by (simp add: expandAndPermute_ok is_bits_length)
  have x: "is_bits 8 (spec_xor (spec_expand r) k)"
    using is_bits_spec_expand [OF r] k by (rule is_bits_spec_xor)
  have x1: "xor_bits (spec_expand r) k = Inr (spec_xor (spec_expand r) k)"
    using is_bits_spec_expand [OF r] k by (rule xor_bits_ok)
  have s: "sBox C (spec_xor (spec_expand r) k) = Inr (spec_sbox C (spec_xor (spec_expand r) k))"
    using C x by (simp add: round_state_ok_def sBox_ok)
  have sb: "is_bits 4 (spec_sbox C (spec_xor (spec_expand r) k))"
    using C x by (simp add: round_state_ok_def is_bits_spec_sbox)
  have p4: "table_ok 4 (P4 C)"
    using C by (simp add: round_state_ok_def)
  have "p4Permutation C (spec_sbox C (spec_xor (spec_expand r) k))
      = permute (spec_sbox C (spec_xor (spec_expand r) k)) (P4 C)"
    using sb p4 by (intro p4Permutation_permute) (simp add: is_bits_def table_ok_def)
  also have "\<dots> = Inr (spec_f C r k)"
    unfolding spec_f_def using p4 sb
    by (intro permute_table_ok [where n = 4]) (simp_all add: is_bits_def)
  finally have p: "p4Permutation C (spec_sbox C (spec_xor (spec_expand r) k)) = Inr (spec_f C r k)" .
  have x2: "xor_bits l (spec_f C r k) = Inr (spec_new_left C l r k)"
    unfolding spec_new_left_def using l is_bits_spec_f [OF C r k] by (rule xor_bits_ok)
  show ?thesis
    by (simp add: round_fn_def e x1 s p x2)
qed

lemma is_bits_spec_new_left:
  "round_state_ok C \<Longrightarrow> is_bits 4 l \<Longrightarrow> is_bits 4 r \<Longrightarrow> is_bits 8 k \<Longrightarrow> is_bits 4 (spec_new_left C l r k)"
  unfolding spec_new_left_def
  by (intro is_bits_spec_xor is_bits_spec_f)

subsection \<open>The key schedule\<close>

lemma circularLeftShift_rotate:
  "n \<le> length xs \<Longrightarrow> circularLeftShift xs n = rotate n xs"
  by (cases "n = length xs") (simp_all add: circularLeftShift_def slice_js_def rotate_drop_take)

lemma is_bits_rotate: "is_bits n v \<Longrightarrow> is_bits n (rotate k v)"
  by (simp add: is_bits_def list_all_iff)

lemma generateSubKeys_eq:
  assumes k: "is_bits 10 k" and p10: "table_ok 10 p10" and p8: "table_ok 8 p8"
  shows "generateSubKeys k p10 p8 = Inr \<lparr>key1 = spec_key1 k p10 p8, key2 = spec_key2 k p10 p8\<rparr>"
proof -
  define pk where "pk = spec_permute k p10"
  have pk: "permute k p10 = Inr pk"
    unfolding pk_def using p10 k by (intro permute_table_ok [where n = 10]) (simp_all add: is_bits_def)
  have len: "length pk = 10"
    using p10 by (simp add: pk_def table_ok_def)
  have sl: "slice_js pk 0 5 = take 5 pk" "slice_js pk 5 10 = drop 5 pk"
    using len by (simp_all add: slice_js_def)
  have c1: "circularLeftShift (take 5 pk) 1 = rotate 1 (take 5 pk)"
    "circularLeftShift (drop 5 pk) 1 = rotate 1 (drop 5 pk)"
    using len by (simp_all add: circularLeftShift_rotate del: rotate_Suc rotate1_length01)
  have c2: "circularLeftShift (rotate 1 (take 5 pk)) 2 = rotate 2 (rotate 1 (take 5 pk))"
    "circularLeftShift (rotate 1 (drop 5 pk)) 2 = rotate 2 (rotate 1 (drop 5 pk))"
    using len by (simp_all add: circularLeftShift_rotate)
  have k1: "permute (rotate 1 (take 5 pk) @ rotate 1 (drop 5 pk)) p8 = Inr (spec_key1 k p10 p8)"
    unfolding spec_key1_def Let_def pk_def [symmetric] using p8 len
    by (intro permute_table_ok [where n = 8]) simp_all
  have k2: "permute (rotate 2 (rotate 1 (take 5 pk)) @ rotate 2 (rotate 1 (drop 5 pk))) p8
      = Inr (spec_key2 k p10 p8)"
    unfolding spec_key2_def Let_def pk_def [symmetric] using p8 len
    by (intro permute_table_ok [where n = 8]) simp_all
  show ?thesis
    unfolding generateSubKeys_def
    by (simp only: pk bindE.simps Let_def sl c1 c2 k1 k2)
qed

lemma is_bits_spec_keys:
  assumes k: "is_bits 10 k" and p10: "table_ok 10 p10" and p8: "table_ok 8 p8"
  shows "is_bits 8 (spec_key1 k p10 p8)" and "is_bits 8 (spec_key2 k p10 p8)"
proof -
  define pk where "pk = spec_permute k p10"
  have pk: "is_bits 10 pk"
    unfolding pk_def using p10 k by (rule is_bits_spec_permute) simp
  have l: "is_bits 5 (take 5 pk)" using pk by (rule is_bits_take) simp
  have r: "is_bits 5 (drop 5 pk)" using is_bits_drop [OF pk, of 5] by simp
  have "is_bits (5 + 5) (rotate 1 (take 5 pk) @ rotate 1 (drop 5 pk))"
    by (intro is_bits_append is_bits_rotate l r)
  then show "is_bits 8 (spec_key1 k p10 p8)"
    unfolding spec_key1_def Let_def pk_def [symmetric]
    by (intro is_bits_spec_permute [OF p8, where m = 10]) simp_all
  have "is_bits (5 + 5) (rotate 2 (rotate 1 (take 5 pk)) @ rotate 2 (rotate 1 (drop 5 pk)))"
    by (intro is_bits_append is_bits_rotate l r)
  then show "is_bits 8 (spec_key2 k p10 p8)"
    unfolding spec_key2_def Let_def pk_def [symmetric]
    by (intro is_bits_spec_permute [OF p8, where m = 10]) simp_all
qed

lemma state_ok_subKeys:
  assumes "state_ok C"
  shows "is_bits 8 (key1 (subKeys C))" and "is_bits 8 (key2 (subKeys C))"
proof -
  have k: "is_bits 10 (key C)" and p10: "table_ok 10 (P10 C)" and p8: "table_ok 8 (P8 C)"
    and g: "generateSubKeys (key C) (P10 C) (P8 C) = Inr (subKeys C)"
    using assms by (simp_all add: state_ok_def)
  from g have "subKeys C = \<lparr>key1 = spec_key1 (key C) (P10 C) (P8 C), key2 = spec_key2 (key C) (P10 C) (P8 C)\<rparr>"
    by (simp add: generateSubKeys_eq [OF k p10 p8])
  then show "is_bits 8 (key1 (subKeys C))" and "is_bits 8 (key2 (subKeys C))"
    using is_bits_spec_keys [OF k p10 p8] by simp_all
qed

subsection \<open>Encryption and decryption of a block\<close>

text \<open>One pass of the block structure, with the two subkeys in either order.\<close>

lemma block_pass:
  assumes C: "round_state_ok C" and ip: "table_ok 8 (IP C)" and ipi: "table_ok 8 (IPInverse C)"
    and ka: "is_bits 8 ka" and kb: "is_bits 8 kb" and b: "is_bits 8 b"
  shows "bindE (permute b (IP C)) (\<lambda>data.
     let left = slice_js data 0 4;
         right = slice_js data 4 8
     in bindE (round_fn C left right ka) (\<lambda>(left1, right1).
        bindE (round_fn C right1 left1 kb) (\<lambda>(left2, right2).
        permute (left2 @ right2) (IPInverse C)))) = Inr (spec_block C ka kb b)"
    and "is_bits 8 (spec_block C ka kb b)"
proof -
  define d where "d = spec_permute b (IP C)"
  define l where "l = take 4 d"
  define r where "r = drop 4 d"
  define l1 where "l1 = spec_new_left C l r ka"
  define l2 where "l2 = spec_new_left C r l1 kb"
  have d: "is_bits 8 d"
    unfolding d_def using ip b by (rule is_bits_spec_permute) simp
  have pd: "permute b (IP C) = Inr d"
    unfolding d_def using ip b by (intro permute_table_ok [where n = 8]) (simp_all add: is_bits_def)
  have sl: "slice_js d 0 4 = l" "slice_js d 4 8 = r"
    using d by (simp_all add: slice_js_def l_def r_def is_bits_def)
  have l: "is_bits 4 l" unfolding l_def using d by (rule is_bits_take) simp
  have r: "is_bits 4 r" unfolding r_def using is_bits_drop [OF d, of 4] by simp
  have l1: "is_bits 4 l1" unfolding l1_def using C l r ka by (rule is_bits_spec_new_left)
  have l2: "is_bits 4 l2" unfolding l2_def using C r l1 kb by (rule is_bits_spec_new_left)
  have r1: "round_fn C l r ka = Inr (l1, r)"
    unfolding l1_def using C l r ka by (rule round_fn_eq)
  have r2: "round_fn C r l1 kb = Inr (l2, l1)"
    unfolding l2_def using C r l1 kb by (rule round_fn_eq)
  have out: "is_bits (4 + 4) (l2 @ l1)" using l2 l1 by (rule is_bits_append)
  have pf: "permute (l2 @ l1) (IPInverse C) = Inr (spec_permute (l2 @ l1) (IPInverse C))"
    using ipi out by (intro permute_table_ok [where n = 8]) (simp_all add: is_bits_def)
  have sb: "spec_block C ka kb b = spec_permute (l2 @ l1) (IPInverse C)"
    by (simp add: spec_block_def Let_def d_def l_def r_def l1_def l2_def)
  show "bindE (permute b (IP C)) (\<lambda>data.
     let left = slice_js data 0 4;
         right = slice_js data 4 8
     in bindE (round_fn C left right ka) (\<lambda>(left1, right1).
        bindE (round_fn C right1 left1 kb) (\<lambda>(left2, right2).
        permute (left2 @ right2) (IPInverse C)))) = Inr (spec_block C ka kb b)"
    by (simp add: pd sl r1 r2 pf sb)
  show "is_bits 8 (spec_block C ka kb b)"
    unfolding sb using ipi out by (intro is_bits_spec_permute [where m = 8]) simp_all
qed

lemma encrypt_eq:
  assumes "state_ok C" and "is_bits 8 b"
  shows "encrypt C b = Inr (spec_block C (key1 (subKeys C)) (key2 (subKeys C)) b)"
  unfolding encrypt_def
  using assms state_ok_subKeys [OF assms(1)]
  by (intro block_pass) (simp_all add: state_ok_def)

lemma decrypt_eq:
  assumes "state_ok C" and "is_bits 8 b"
  shows "decrypt C b = Inr (spec_block C (key2 (subKeys C)) (key1 (subKeys C)) b)"
  unfolding decrypt_def
  using assms state_ok_subKeys [OF assms(1)]
  by (intro block_pass) (simp_all add: state_ok_def)

lemma is_bits_spec_block:
  assumes "state_ok C" and "is_bits 8 ka" and "is_bits 8 kb" and "is_bits 8 b"
  shows "is_bits 8 (spec_block C ka kb b)"
  using assms by (intro block_pass(2)) (simp_all add: state_ok_def)

lemma spec_permute_identity:
  "length v = 8 \<Longrightarrow> spec_permute v [1, 2, 3, 4, 5, 6, 7, 8] = v"
  using list8 [of v] by (auto simp: spec_permute_def)

lemma spec_block_inverse:
  assumes C: "round_state_ok C" and ip: "IP C = [1, 2, 3, 4, 5, 6, 7, 8]"
    and ipi: "IPInverse C = [1, 2, 3, 4, 5, 6, 7, 8]"
    and ka: "is_bits 8 ka" and kb: "is_bits 8 kb" and b: "is_bits 8 b"
  shows "spec_block C kb ka (spec_block C ka kb b) = b"
proof -
  define l where "l = take 4 b"
  define r where "r = drop 4 b"
  define l1 where "l1 = spec_new_left C l r ka"
  define l2 where "l2 = spec_new_left C r l1 kb"
  have len: "length b = 8" using b by (simp add: is_bits_def)
  have l: "is_bits 4 l" unfolding l_def using b by (rule is_bits_take) simp
  have r: "is_bits 4 r" unfolding r_def using is_bits_drop [OF b, of 4] by simp
  have l1: "is_bits 4 l1" unfolding l1_def using C l r ka by (rule is_bits_spec_new_left)
  have l2: "is_bits 4 l2" unfolding l2_def using C r l1 kb by (rule is_bits_spec_new_left)
  have enc: "spec_block C ka kb b = l2 @ l1"
    using len l1 l2
    by (simp add: spec_block_def Let_def ip ipi spec_permute_identity l_def r_def l1_def l2_def is_bits_def)
  have back1: "spec_new_left C l2 l1 kb = r"
    unfolding l2_def spec_new_left_def
    using r is_bits_spec_f [OF C l1 kb] by (rule spec_xor_cancel)
  have back2: "spec_new_left C l1 r ka = l"
    unfolding l1_def spec_new_left_def
    using l is_bits_spec_f [OF C r ka] by (rule spec_xor_cancel)
  have "spec_block C kb ka (l2 @ l1) = l @ r"
    using l1 l2 l r
    by (simp add: spec_block_def Let_def ip ipi spec_permute_identity is_bits_def back1 back2)
  then show ?thesis
    by (simp add: enc l_def r_def)
qed

subsection \<open>Generators and the constructor\<close>

lemma getInitialPermutation_eq: "getInitialPermutation = [1, 2, 3, 4, 5, 6, 7, 8]"
  by (simp add: getInitialPermutation_def upt_rec)

lemma getArrayInverse_identity: "getArrayInverse [1, 2, 3, 4, 5, 6, 7, 8] = Inr [1, 2, 3, 4, 5, 6, 7, 8]"
  by (simp add: getArrayInverse_def elem_at_def store_def numeral_eq_Suc)

lemma rng_ok_random:
  assumes "rng_ok r"
  shows "0 \<le> fst (math_random r)" and "fst (math_random r) < 1" and "rng_ok (snd (math_random r))"
  using assms by (simp_all add: rng_ok_def math_random_def)

lemma floor_draw:
  fixes u :: rat
  assumes "0 \<le> u" and "u < 1" and "0 < n"
  shows "0 \<le> \<lfloor>u * of_nat n\<rfloor>" and "\<lfloor>u * of_nat n\<rfloor> < int n"
proof -
  show "0 \<le> \<lfloor>u * of_nat n\<rfloor>" using assms by simp
  have "u * of_nat n < of_nat n" using assms by simp
  then have "u * of_nat n < of_int (int n)" by simp
  then show "\<lfloor>u * of_nat n\<rfloor> < int n" by (simp only: floor_less_iff)
qed

lemma shuffle_loop_ok:
  assumes "rng_ok r" and "i < length a \<or> i = 0"
  shows "\<exists>a' r'. shuffle_loop i a r = Inr (a', r') \<and> mset a' = mset a \<and> rng_ok r'"
  using assms
proof (induction i arbitrary: a r)
  case 0
  then show ?case by simp
next
  case (Suc i)
  define u where "u = fst (math_random r)"
  define r' where "r' = snd (math_random r)"
  define j where "j = \<lfloor>u * of_nat (Suc i + 1)\<rfloor>"
  have mr: "math_random r = (u, r')" by (simp add: u_def r'_def)
  have u: "0 \<le> u" "u < 1" and r': "rng_ok r'"
    using rng_ok_random [OF Suc.prems(1)] by (simp_all add: u_def r'_def)
  have j: "0 \<le> j" "j < int (Suc i + 1)"
    unfolding j_def using u by (intro floor_draw; simp)+
  have len: "Suc i < length a" using Suc.prems(2) by simp
  then have jl: "nat j < length a" using j by linarith
  have rd: "elem_at a j = Inr (a ! nat j)" "elem_at a (int (Suc i)) = Inr (a ! Suc i)"
    using j jl len elem_at_nat [of "Suc i" a] by (simp_all add: elem_at_in_range)
  define b where "b = (a[Suc i := a ! nat j])[nat j := a ! Suc i]"
  have mb: "mset b = mset a"
    unfolding b_def using jl len by (rule mset_swap)
  have "i < length b \<or> i = 0" using len by (simp add: b_def)
  from Suc.IH [OF r' this] obtain a' r'' where
    "shuffle_loop i b r' = Inr (a', r'')" "mset a' = mset b" "rng_ok r''" by blast
  moreover have "shuffle_loop (Suc i) a r = shuffle_loop i b r'"
    by (simp only: shuffle_loop.simps mr Let_def prod.case j_def [symmetric] rd bindE.simps b_def)
  ultimately show ?case
    using mb by simp
qed

lemma shuffleArray_ok:
  assumes "rng_ok r"
  shows "\<exists>a' r'. shuffleArray a r = Inr (a', r') \<and> mset a' = mset a \<and> rng_ok r'"
  unfolding shuffleArray_def using assms
  by (intro shuffle_loop_ok) (cases a; simp)+

lemma fill_loop_ok:
  assumes "rng_ok r" and "0 < len"
  shows "length (fst (fill_loop k len r)) = k
    \<and> list_all (\<lambda>x. 1 \<le> x \<and> x \<le> int len) (fst (fill_loop k len r))
    \<and> rng_ok (snd (fill_loop k len r))"
  using assms
proof (induction k arbitrary: r)
  case 0
  then show ?case by simp
next
  case (Suc k)
  define u where "u = fst (math_random r)"
  define r' where "r' = snd (math_random r)"
  have mr: "math_random r = (u, r')" by (simp add: u_def r'_def)
  have u: "0 \<le> u" "u < 1" and r': "rng_ok r'"
    using rng_ok_random [OF Suc.prems(1)] by (simp_all add: u_def r'_def)
  have x: "0 \<le> \<lfloor>u * of_nat len\<rfloor>" "\<lfloor>u * of_nat len\<rfloor> < int len"
    using u Suc.prems(2) by (rule floor_draw)+
  show ?case
    using Suc.IH [OF r' Suc.prems(2)] x
    by (simp add: mr split_beta Let_def)
qed

lemma generatePermutationTable_ok:
  assumes "rng_ok r"
  shows "\<exists>t r'. generatePermutationTable n r = Inr (t, r') \<and> table_ok n t \<and> rng_ok r'"
proof (cases "n = 0")
  case True
  then show ?thesis
    using assms by (simp add: generatePermutationTable_def shuffleArray_def table_ok_def)
next
  case False
  define t where "t = fst (fill_loop n n r)"
  define r1 where "r1 = snd (fill_loop n n r)"
  have f: "fill_loop n n r = (t, r1)" by (simp add: t_def r1_def)
  have t: "length t = n" "list_all (\<lambda>x. 1 \<le> x \<and> x \<le> int n) t" and r1: "rng_ok r1"
    using fill_loop_ok [OF assms, of n n] False by (simp_all add: t_def r1_def)
  from shuffleArray_ok [OF r1, of t] obtain t' r' where
    s: "shuffleArray t r1 = Inr (t', r')" and m: "mset t' = mset t" and r': "rng_ok r'" by blast
  have "length t' = n" using m t(1) by (metis mset_eq_length)
  moreover have "set t' = set t" using m by (rule mset_eq_setD)
  ultimately have "table_ok n t'"
    using t(2) by (simp add: table_ok_def list_all_iff)
  then show ?thesis
    using s r' by (simp add: generatePermutationTable_def f)
qed

lemma sbox_loop_ok:
  assumes "rng_ok r"
  shows "\<exists>box r'. sbox_loop k r = Inr (box, r') \<and> length box = k
    \<and> list_all (\<lambda>line. mset line = mset [0, 1, 2, 3]) box \<and> rng_ok r'"
  using assms
proof (induction k arbitrary: r)
  case 0
  then show ?case by simp
next
  case (Suc k)
  from shuffleArray_ok [OF Suc.prems, of "[0, 1, 2, 3]"] obtain line r1 where
    s: "shuffleArray [0, 1, 2, 3] r = Inr (line, r1)" and m: "mset line = mset [0, 1, 2, 3::nat]"
    and r1: "rng_ok r1" by blast
  from Suc.IH [OF r1] obtain box r' where
    "sbox_loop k r1 = Inr (box, r')" "length box = k"
    "list_all (\<lambda>line. mset line = mset [0, 1, 2, 3]) box" "rng_ok r'" by blast
  then show ?case
    using s m by simp
qed

lemma row_permutation_ok:
  assumes "mset line = mset [0, 1, 2, 3::nat]"
  shows "length line = 4 \<and> list_all (\<lambda>v. v < 4) line"
proof -
  have "length line = length [0, 1, 2, 3::nat]" using assms by (rule mset_eq_length)
  moreover have "set line = set [0, 1, 2, 3::nat]" using assms by (rule mset_eq_setD)
  ultimately show ?thesis by (simp add: list_all_iff)
qed

lemma generateSBox_ok:
  assumes "rng_ok r"
  shows "\<exists>box r'. generateSBox r = Inr (box, r') \<and> length box = 4
    \<and> list_all (\<lambda>line. mset line = mset [0, 1, 2, 3]) box \<and> sbox_ok box \<and> rng_ok r'"
proof -
  from sbox_loop_ok [OF assms, of 4] obtain box r' where
    b: "sbox_loop 4 r = Inr (box, r')" "length box = 4"
    "list_all (\<lambda>line. mset line = mset [0, 1, 2, 3]) box" "rng_ok r'" by blast
  have "sbox_ok box"
    using b(2,3) row_permutation_ok by (auto simp: sbox_ok_def list_all_iff)
  then show ?thesis
    using b by (simp add: generateSBox_def)
qed

lemma bindE_Inr_iff: "bindE m f = Inr y \<longleftrightarrow> (\<exists>x. m = Inr x \<and> f x = Inr y)"
  by (cases m) simp_all

lemma constructor_ok:
  assumes r: "rng_ok r" and k: "is_bits 10 k"
  shows "\<exists>C r'. constructor k r = Inr (C, r') \<and> state_ok C \<and> key C = k
    \<and> IP C = [1, 2, 3, 4, 5, 6, 7, 8] \<and> IPInverse C = [1, 2, 3, 4, 5, 6, 7, 8]"
proof -
  from generatePermutationTable_ok [OF r, of 4] obtain p4 r1 where
    p4: "generatePermutationTable 4 r = Inr (p4, r1)" "table_ok 4 p4" and r1: "rng_ok r1" by blast
  from generatePermutationTable_ok [OF r1, of 8] obtain p8 r2 where
    p8: "generatePermutationTable 8 r1 = Inr (p8, r2)" "table_ok 8 p8" and r2: "rng_ok r2" by blast
  from generatePermutationTable_ok [OF r2, of 10] obtain p10 r3 where
    p10: "generatePermutationTable 10 r2 = Inr (p10, r3)" "table_ok 10 p10" and r3: "rng_ok r3" by blast
  from generateSBox_ok [OF r3] obtain b1 r4 where
    b1: "generateSBox r3 = Inr (b1, r4)" "sbox_ok b1" and r4: "rng_ok r4" by blast
  from generateSBox_ok [OF r4] obtain b2 r5 where
    b2: "generateSBox r4 = Inr (b2, r5)" "sbox_ok b2" and r5: "rng_ok r5" by blast
  have sk: "generateSubKeys k p10 p8 = Inr \<lparr>key1 = spec_key1 k p10 p8, key2 = spec_key2 k p10 p8\<rparr>"
    using k p10(2) p8(2) by (rule generateSubKeys_eq)
  have id: "table_ok 8 [1, 2, 3, 4, 5, 6, 7, 8]"
    by (simp add: table_ok_def)
  define C where "C = \<lparr>key = k, IP = [1, 2, 3, 4, 5, 6, 7, 8], IPInverse = [1, 2, 3, 4, 5, 6, 7, 8],
           P10 = p10, P8 = p8, P4 = p4, BOX_1 = b1, BOX_2 = b2,
           subKeys = \<lparr>key1 = spec_key1 k p10 p8, key2 = spec_key2 k p10 p8\<rparr>\<rparr>"
  have "constructor k r = Inr (C, r5)"
    by (simp add: constructor_def p4 p8 p10 b1 b2 sk getInitialPermutation_eq
        getArrayInverse_identity C_def)
  moreover have "state_ok C"
    using k p4(2) p8(2) p10(2) b1(2) b2(2) sk id
    by (simp add: state_ok_def round_state_ok_def C_def)
  ultimately show ?thesis
    by (simp add: C_def)
qed

subsection \<open>The concrete instance\<close>

lemma math_random_demo: "math_random demo_rng = (0, demo_rng)"
  by (simp add: math_random_def demo_rng_def)

lemma rng_ok_demo: "rng_ok demo_rng"
  by (simp add: rng_ok_def demo_rng_def)

lemma fill_loop_demo: "fill_loop k len demo_rng = (replicate k 1, demo_rng)"
  by (induction k) (simp_all add: math_random_demo)

lemma shuffle_loop_replicate_demo:
  "i < n \<or> i = 0 \<Longrightarrow> shuffle_loop i (replicate n x) demo_rng = Inr (replicate n x, demo_rng)"
proof (induction i)
  case 0
  then show ?case by simp
next
  case (Suc i)
  then have n: "Suc i < n" "0 < n" by simp_all
  then have "(replicate n x)[Suc i := x, 0 := x] = replicate n x"
    by (metis length_replicate list_update_id nth_replicate)
  then show ?case
    using Suc n by (simp add: math_random_demo elem_at_def)
qed

lemma generatePermutationTable_demo:
  "generatePermutationTable n demo_rng = Inr (replicate n 1, demo_rng)"
  unfolding generatePermutationTable_def fill_loop_demo shuffleArray_def
  using shuffle_loop_replicate_demo [of "n - 1" n "1::int"]
  by (cases n) simp_all

lemma generateSBox_demo:
  "generateSBox demo_rng = Inr ([[1, 2, 3, 0], [1, 2, 3, 0], [1, 2, 3, 0], [1, 2, 3, 0]], demo_rng)"
  by (simp add: generateSBox_def shuffleArray_def math_random_demo numeral_eq_Suc elem_at_def)

lemma generateSubKeys_demo:
  "generateSubKeys demo_key (replicate 10 1) (replicate 8 1)
     = Inr \<lparr>key1 = [0, 0, 0, 0, 0, 0, 0, 0], key2 = [0, 0, 0, 0, 0, 0, 0, 0]\<rparr>"
  by (simp add: generateSubKeys_def permute_def elem_at_def numeral_eq_Suc demo_key_def
      slice_js_def circularLeftShift_def Let_def)

lemma constructor_demo: "constructor demo_key demo_rng = Inr (demo_sdes, demo_rng)"
proof -
  have r: "replicate 4 (1::int) = [1, 1, 1, 1]" "replicate 8 (1::int) = [1, 1, 1, 1, 1, 1, 1, 1]"
    "replicate 10 (1::int) = [1, 1, 1, 1, 1, 1, 1, 1, 1, 1]"
    by (simp_all add: numeral_eq_Suc)
  show ?thesis
    using generateSubKeys_demo
    by (simp add: constructor_def generatePermutationTable_demo generateSBox_demo
        getInitialPermutation_eq getArrayInverse_identity demo_sdes_def r demo_key_def)
qed

lemma state_ok_demo: "state_ok demo_sdes"
proof -
  have r: "replicate 8 (1::int) = [1, 1, 1, 1, 1, 1, 1, 1]"
    "replicate 10 (1::int) = [1, 1, 1, 1, 1, 1, 1, 1, 1, 1]"
    by (simp_all add: numeral_eq_Suc)
  show ?thesis
    using generateSubKeys_demo
    by (simp add: state_ok_def round_state_ok_def demo_sdes_def is_bits_def table_ok_def
        sbox_ok_def r demo_key_def)
qed

lemma encrypt_demo: "encrypt demo_sdes demo_block = Inr [1, 0, 1, 0, 0, 1, 0, 0]"
  by code_simp

lemma decrypt_demo: "decrypt demo_sdes [1, 0, 1, 0, 0, 1, 0, 0] = Inr [1, 0, 1, 1, 0, 1, 0, 1]"
  by code_simp

lemma round_demo: "round_fn demo_sdes [1, 0, 1, 1] [0, 1, 0, 1] [0, 0, 0, 0, 0, 0, 0, 0] = Inr ([0, 1, 0, 0], [0, 1, 0, 1])"
  by code_simp

subsection \<open>Blocks, key schedule and round: the claims\<close>

text \<open>
  Claim C1. For every 10-bit key, every outcome of the random source (hence every
  instance the constructor can build from the key) and every 8-bit block: the
  constructor returns an instance, \<open>encrypt\<close> returns a block, and \<open>decrypt\<close> of that
  block returns the original block.
\<close>

theorem block_round_trip:
  assumes k: "is_bits 10 k" and r: "rng_ok r" and b: "is_bits 8 b"
  shows "\<exists>C r'. constructor k r = Inr (C, r') \<and> (\<exists>c. encrypt C b = Inr c \<and> decrypt C c = Inr b)"
proof -
  from constructor_ok [OF r k] obtain C r' where
    c: "constructor k r = Inr (C, r')" and ok: "state_ok C"
    and ip: "IP C = [1, 2, 3, 4, 5, 6, 7, 8]" and ipi: "IPInverse C = [1, 2, 3, 4, 5, 6, 7, 8]"
    by blast
  define c' where "c' = spec_block C (key1 (subKeys C)) (key2 (subKeys C)) b"
  have k1: "is_bits 8 (key1 (subKeys C))" and k2: "is_bits 8 (key2 (subKeys C))"
    using state_ok_subKeys [OF ok] by simp_all
  have rs: "round_state_ok C" using ok by (simp add: state_ok_def)
  have e: "encrypt C b = Inr c'"
    unfolding c'_def using ok b by (rule encrypt_eq)
  have "is_bits 8 c'"
    unfolding c'_def using ok k1 k2 b by (rule is_bits_spec_block)
  then have "decrypt C c' = Inr (spec_block C (key2 (subKeys C)) (key1 (subKeys C)) c')"
    using ok by (intro decrypt_eq)
  also have "spec_block C (key2 (subKeys C)) (key1 (subKeys C)) c' = b"
    unfolding c'_def using rs ip ipi k1 k2 b by (rule spec_block_inverse)
  finally show ?thesis
    using c e by blast
qed

theorem block_round_trip_witness:
  "is_bits 10 demo_key \<and> rng_ok demo_rng \<and> is_bits 8 demo_block
   \<and> constructor demo_key demo_rng = Inr (demo_sdes, demo_rng)
   \<and> encrypt demo_sdes demo_block = Inr [1, 0, 1, 0, 0, 1, 0, 0]
   \<and> decrypt demo_sdes [1, 0, 1, 0, 0, 1, 0, 0] = Inr demo_block"
proof -
  have h: "is_bits 10 demo_key" "rng_ok demo_rng" "is_bits 8 demo_block"
    by (simp_all add: is_bits_def demo_key_def demo_block_def rng_ok_demo)
  from block_round_trip [OF h] obtain c where
    "encrypt demo_sdes demo_block = Inr c" "decrypt demo_sdes c = Inr demo_block"
    by (auto simp: constructor_demo)
  moreover have "encrypt demo_sdes demo_block = Inr [1, 0, 1, 0, 0, 1, 0, 0]"
    by code_simp
  ultimately show ?thesis
    using h constructor_demo by simp
qed

text \<open>
  Claim C3. For every 10-bit key and every constructed instance, the subkeys are the
  ones the specification describes: the key permuted through P10, split into the halves
  of bits 0 to 4 and 5 to 9, each half shifted circularly left by 1, the concatenation
  permuted through P8 for key1; the shifted halves shifted by 2 more (3 in all from the
  permuted key), concatenated and permuted through P8 for key2.
\<close>

theorem key_schedule_refines_spec:
  assumes k: "is_bits 10 k" and r: "rng_ok r"
  shows "\<exists>C r'. constructor k r = Inr (C, r')
    \<and> key1 (subKeys C) = spec_key1 k (P10 C) (P8 C)
    \<and> key2 (subKeys C) = spec_key2 k (P10 C) (P8 C)
    \<and> spec_key2 k (P10 C) (P8 C)
        = spec_permute (rotate 3 (take 5 (spec_permute k (P10 C)))
            @ rotate 3 (drop 5 (spec_permute k (P10 C)))) (P8 C)
    \<and> permute k (P10 C) = Inr (spec_permute k (P10 C))"
proof -
  from constructor_ok [OF r k] obtain C r' where
    c: "constructor k r = Inr (C, r')" and ok: "state_ok C" and kc: "key C = k"
    by blast
  have p10: "table_ok 10 (P10 C)" and p8: "table_ok 8 (P8 C)"
    and g: "generateSubKeys k (P10 C) (P8 C) = Inr (subKeys C)"
    using ok kc by (auto simp: state_ok_def)
  have sk: "subKeys C = \<lparr>key1 = spec_key1 k (P10 C) (P8 C), key2 = spec_key2 k (P10 C) (P8 C)\<rparr>"
    using g by (simp add: generateSubKeys_eq [OF k p10 p8])
  have cum: "spec_key2 k (P10 C) (P8 C)
        = spec_permute (rotate 3 (take 5 (spec_permute k (P10 C)))
            @ rotate 3 (drop 5 (spec_permute k (P10 C)))) (P8 C)"
    by (simp only: spec_key2_def Let_def rotate_rotate) simp
  have pk: "permute k (P10 C) = Inr (spec_permute k (P10 C))"
    using p10 k by (intro permute_table_ok [where n = 10]) (simp_all add: is_bits_def)
  show ?thesis
    using c sk cum pk by (intro exI [of _ C] exI [of _ r']) simp
qed

theorem key_schedule_refines_spec_witness:
  "is_bits 10 demo_key \<and> rng_ok demo_rng
   \<and> constructor demo_key demo_rng = Inr (demo_sdes, demo_rng)
   \<and> key1 (subKeys demo_sdes) = spec_key1 demo_key (P10 demo_sdes) (P8 demo_sdes)
   \<and> key2 (subKeys demo_sdes) = spec_key2 demo_key (P10 demo_sdes) (P8 demo_sdes)"
proof -
  have h: "is_bits 10 demo_key" "rng_ok demo_rng"
    by (simp_all add: is_bits_def demo_key_def rng_ok_demo)
  from key_schedule_refines_spec [OF h] show ?thesis
    using h by (simp add: constructor_demo)
qed

text \<open>
  Claim C4. For a 4-bit left half, a 4-bit right half and an 8-bit subkey, the round
  function returns as new left half the left half XOR the P4 permutation of the S-box
  output of (expansion of the right half XOR subkey), with the expansion pattern, the row
  and column rule and the two-bit output of the specification.
\<close>

theorem round_refines_spec:
  assumes "round_state_ok C" and "is_bits 4 l" and "is_bits 4 r" and "is_bits 8 sk"
  shows "round_fn C l r sk
    = Inr (spec_xor l (spec_permute (spec_sbox C (spec_xor (spec_expand r) sk)) (P4 C)), r)"
  using round_fn_eq [OF assms] by (simp add: spec_new_left_def spec_f_def)

theorem round_refines_spec_witness:
  "round_state_ok demo_sdes \<and> is_bits 4 [1, 0, 1, 1] \<and> is_bits 4 [0, 1, 0, 1]
   \<and> is_bits 8 [0, 0, 1, 0, 1, 1, 0, 1]
   \<and> round_fn demo_sdes [1, 0, 1, 1] [0, 1, 0, 1] [0, 0, 1, 0, 1, 1, 0, 1]
      = Inr (spec_xor [1, 0, 1, 1] (spec_permute (spec_sbox demo_sdes
          (spec_xor (spec_expand [0, 1, 0, 1]) [0, 0, 1, 0, 1, 1, 0, 1])) (P4 demo_sdes)), [0, 1, 0, 1])
   \<and> spec_xor [1, 0, 1, 1] (spec_permute (spec_sbox demo_sdes
          (spec_xor (spec_expand [0, 1, 0, 1]) [0, 0, 1, 0, 1, 1, 0, 1])) (P4 demo_sdes)) = [1, 0, 1, 1]"
proof -
  have h: "round_state_ok demo_sdes" "is_bits 4 [1, 0, 1, 1]" "is_bits 4 [0, 1, 0, 1]"
    "is_bits 8 [0, 0, 1, 0, 1, 1, 0, 1]"
    using state_ok_demo by (simp_all add: state_ok_def is_bits_def)
  have "spec_xor [1, 0, 1, 1] (spec_permute (spec_sbox demo_sdes
          (spec_xor (spec_expand [0, 1, 0, 1]) [0, 0, 1, 0, 1, 1, 0, 1])) (P4 demo_sdes)) = [1, 0, 1, 1]"
    by code_simp
  then show ?thesis
    using h round_refines_spec [OF h] by simp
qed

text \<open>
  Claim C5. In a cipher state whose tables P4, P8, P10, IP and IPInverse (of lengths 4,
  8, 10, 8 and 8) have all entries between 1 and their length, whose S-boxes are 4 by 4
  with entries 0 to 3, and whose subkeys are the ones the key schedule derives from a
  10-bit key, \<open>encrypt\<close> and \<open>decrypt\<close> of an 8-bit block meet no read outside an array
  or matrix, raise nothing, and return 8 bits.
\<close>

theorem block_operations_total:
  assumes "state_ok C" and "is_bits 8 b"
  shows "(\<exists>c. encrypt C b = Inr c \<and> is_bits 8 c) \<and> (\<exists>p. decrypt C b = Inr p \<and> is_bits 8 p)"
proof -
  have k: "is_bits 8 (key1 (subKeys C))" "is_bits 8 (key2 (subKeys C))"
    using state_ok_subKeys [OF assms(1)] by simp_all
  show ?thesis
    using encrypt_eq [OF assms] decrypt_eq [OF assms]
      is_bits_spec_block [OF assms(1) k assms(2)] is_bits_spec_block [OF assms(1) k(2) k(1) assms(2)]
    by simp
qed

theorem block_operations_total_witness:
  "state_ok demo_sdes \<and> is_bits 8 demo_block
   \<and> (\<exists>c. encrypt demo_sdes demo_block = Inr c \<and> is_bits 8 c)
   \<and> (\<exists>p. decrypt demo_sdes demo_block = Inr p \<and> is_bits 8 p)"
proof -
  have h: "state_ok demo_sdes" "is_bits 8 demo_block"
    using state_ok_demo by (simp_all add: is_bits_def demo_block_def)
  from block_operations_total [OF h] show ?thesis
    using h by simp
qed

subsection \<open>Generators, the frame of the round and the fixed tables: the claims\<close>

text \<open>
  Claim C6. For every outcome of the random source, the S-box generator returns a matrix
  of 4 rows of 4 entries in which every row is a permutation of 0, 1, 2, 3: it has no
  duplicate and holds exactly these values.
\<close>

theorem generateSBox_rows_permutations:
  assumes "rng_ok r"
  shows "\<exists>box r'. generateSBox r = Inr (box, r') \<and> length box = 4
    \<and> list_all (\<lambda>line. length line = 4 \<and> distinct line \<and> set line = {0, 1, 2, 3}) box"
proof -
  from generateSBox_ok [OF assms] obtain box r' where
    g: "generateSBox r = Inr (box, r')" and len: "length box = 4"
    and rows: "list_all (\<lambda>line. mset line = mset [0, 1, 2, 3]) box" by blast
  have "length line = 4 \<and> distinct line \<and> set line = {0, 1, 2, 3}"
    if "mset line = mset [0, 1, 2, 3::nat]" for line
  proof -
    have "length line = length [0, 1, 2, 3::nat]" using that by (rule mset_eq_length)
    moreover have "set line = set [0, 1, 2, 3::nat]" using that by (rule mset_eq_setD)
    moreover have "distinct line = distinct [0, 1, 2, 3::nat]"
      using that by (rule mset_eq_imp_distinct_iff)
    ultimately show ?thesis by simp
  qed
  then have "list_all (\<lambda>line. length line = 4 \<and> distinct line \<and> set line = {0, 1, 2, 3}) box"
    using rows by (simp add: list_all_iff)
  then show ?thesis
    using g len by blast
qed

theorem generateSBox_rows_permutations_witness:
  "rng_ok demo_rng
   \<and> generateSBox demo_rng = Inr ([[1, 2, 3, 0], [1, 2, 3, 0], [1, 2, 3, 0], [1, 2, 3, 0]], demo_rng)
   \<and> list_all (\<lambda>line. length line = 4 \<and> distinct line \<and> set line = {0, 1, 2, 3})
        [[1, 2, 3, 0], [1, 2, 3, 0], [1, 2, 3, 0], [1, 2, 3, 0::nat]]"
  using generateSBox_rows_permutations [OF rng_ok_demo]
  by (simp add: generateSBox_demo rng_ok_demo)

text \<open>
  Claim C7. For every outcome of the random source, the permutation-table generator
  called with \<open>length\<close> returns exactly \<open>length\<close> values, each between 1 and \<open>length\<close>.
  It does not guarantee a bijection: for every \<open>length\<close> of at least 2 (the constructor
  uses 4, 8 and 10) some outcome of the random source gives a table with a repeated
  index, in which therefore some index of \<open>1 .. length\<close> is missing.
\<close>

theorem generatePermutationTable_range_not_bijective:
  "(rng_ok r \<longrightarrow>
      (\<exists>t r'. generatePermutationTable n r = Inr (t, r') \<and> length t = n
         \<and> list_all (\<lambda>x. 1 \<le> x \<and> x \<le> int n) t))
   \<and> (2 \<le> n \<longrightarrow>
      (\<exists>r0 t r'. rng_ok r0 \<and> generatePermutationTable n r0 = Inr (t, r')
         \<and> \<not> distinct t \<and> set t \<noteq> {1 .. int n}))"
proof (intro conjI impI)
  assume "rng_ok r"
  from generatePermutationTable_ok [OF this, of n]
  show "\<exists>t r'. generatePermutationTable n r = Inr (t, r') \<and> length t = n
         \<and> list_all (\<lambda>x. 1 \<le> x \<and> x \<le> int n) t"
    by (auto simp: table_ok_def)
next
  assume n: "2 \<le> n"
  then obtain m where m: "n = Suc (Suc m)"
    by (metis One_nat_def Suc_1 Suc_le_D Suc_le_mono)
  have "\<not> distinct (replicate n (1::int))"
    by (simp add: m)
  moreover have "set (replicate n (1::int)) \<noteq> {1 .. int n}"
  proof -
    have "2 \<in> {1 .. int n}" using n by simp
    moreover have "2 \<notin> set (replicate n (1::int))" by simp
    ultimately show ?thesis by blast
  qed
  ultimately show "\<exists>r0 t r'. rng_ok r0 \<and> generatePermutationTable n r0 = Inr (t, r')
         \<and> \<not> distinct t \<and> set t \<noteq> {1 .. int n}"
    using rng_ok_demo generatePermutationTable_demo [of n] by blast
qed

theorem generatePermutationTable_range_not_bijective_witness:
  "rng_ok demo_rng \<and> (2::nat) \<le> 4
   \<and> generatePermutationTable 4 demo_rng = Inr ([1, 1, 1, 1], demo_rng)
   \<and> \<not> distinct [1, 1, 1, 1::int] \<and> set [1, 1, 1, 1::int] \<noteq> {1 .. 4}
   \<and> (\<exists>r0 t r'. rng_ok r0 \<and> generatePermutationTable 4 r0 = Inr (t, r')
         \<and> \<not> distinct t \<and> set t \<noteq> {1 .. int 4})"
proof -
  have "generatePermutationTable 4 demo_rng = Inr ([1, 1, 1, 1], demo_rng)"
    by (simp add: generatePermutationTable_demo numeral_eq_Suc)
  moreover have "set [1, 1, 1, 1::int] \<noteq> {1 .. 4}"
  proof -
    have "(2::int) \<in> {1 .. 4}" by simp
    moreover have "(2::int) \<notin> set [1, 1, 1, 1]" by simp
    ultimately show ?thesis by blast
  qed
  ultimately show ?thesis
    using generatePermutationTable_range_not_bijective [of demo_rng 4] rng_ok_demo
    by simp
qed

text \<open>
  Claim C8. Whenever the round function returns a pair, its second component is the
  right half it was given, unchanged: the round swaps nothing. For the inputs of the
  cipher (a well-formed state, 4-bit halves, an 8-bit subkey) it does return a pair.
\<close>

theorem round_keeps_right_half:
  "(\<forall>l' r'. round_fn C l r k = Inr (l', r') \<longrightarrow> r' = r)
   \<and> (round_state_ok C \<and> is_bits 4 l \<and> is_bits 4 r \<and> is_bits 8 k
        \<longrightarrow> (\<exists>l'. round_fn C l r k = Inr (l', r)))"
proof (intro conjI allI impI)
  fix l' r' assume "round_fn C l r k = Inr (l', r')"
  then show "r' = r"
    by (auto simp: round_fn_def bindE_Inr_iff)
next
  assume "round_state_ok C \<and> is_bits 4 l \<and> is_bits 4 r \<and> is_bits 8 k"
  then show "\<exists>l'. round_fn C l r k = Inr (l', r)"
    by (simp add: round_fn_eq)
qed

theorem round_keeps_right_half_witness:
  "round_state_ok demo_sdes \<and> is_bits 4 [1, 0, 1, 1] \<and> is_bits 4 [0, 1, 0, 1]
   \<and> is_bits 8 [0, 0, 0, 0, 0, 0, 0, 0]
   \<and> round_fn demo_sdes [1, 0, 1, 1] [0, 1, 0, 1] [0, 0, 0, 0, 0, 0, 0, 0]
       = Inr ([0, 1, 0, 0], [0, 1, 0, 1])
   \<and> snd ([0, 1, 0, 0], [0, 1, 0, 1]) = [0, 1, 0, 1::int]"
proof -
  have "round_state_ok demo_sdes"
    using state_ok_demo by (simp add: state_ok_def)
  then show ?thesis
    using round_keeps_right_half [of demo_sdes "[1, 0, 1, 1]" "[0, 1, 0, 1]" "[0, 0, 0, 0, 0, 0, 0, 0]"]
      round_demo
    by (simp add: is_bits_def)
qed

text \<open>
  Claim C9. Every instance the constructor returns has the identity table
  \<open>[1, 2, 3, 4, 5, 6, 7, 8]\<close> as IP, and as IPInverse the inverse that
  \<open>getArrayInverse\<close> derives from it, which is the identity table again; so the
  initial and the final permutation of \<open>encrypt\<close> and \<open>decrypt\<close> return any vector of 8
  entries unchanged.
\<close>

theorem constructor_IP_identity:
  assumes "constructor k r = Inr (C, r')"
  shows "IP C = [1, 2, 3, 4, 5, 6, 7, 8] \<and> getArrayInverse (IP C) = Inr (IPInverse C)
    \<and> IPInverse C = [1, 2, 3, 4, 5, 6, 7, 8]
    \<and> (\<forall>v :: int list. length v = 8 \<longrightarrow> permute v (IP C) = Inr v \<and> permute v (IPInverse C) = Inr v)"
proof -
  have ip: "IP C = [1, 2, 3, 4, 5, 6, 7, 8]" and ipi: "IPInverse C = [1, 2, 3, 4, 5, 6, 7, 8]"
    using assms
    by (auto simp: constructor_def bindE_Inr_iff getInitialPermutation_eq getArrayInverse_identity)
  have "permute v [1, 2, 3, 4, 5, 6, 7, 8] = Inr v" if "length v = 8" for v :: "int list"
  proof -
    have "permute v [1, 2, 3, 4, 5, 6, 7, 8] = Inr (spec_permute v [1, 2, 3, 4, 5, 6, 7, 8])"
      using that by (intro permute_in_range) simp
    then show ?thesis
      using that by (simp add: spec_permute_identity)
  qed
  then show ?thesis
    by (simp add: ip ipi getArrayInverse_identity)
qed

theorem constructor_IP_identity_witness:
  "constructor demo_key demo_rng = Inr (demo_sdes, demo_rng)
   \<and> IP demo_sdes = [1, 2, 3, 4, 5, 6, 7, 8] \<and> IPInverse demo_sdes = [1, 2, 3, 4, 5, 6, 7, 8]
   \<and> permute demo_block (IP demo_sdes) = Inr demo_block
   \<and> permute demo_block (IPInverse demo_sdes) = Inr demo_block"
proof -
  have len: "length demo_block = 8" by (simp add: demo_block_def)
  from constructor_IP_identity [OF constructor_demo]
  have tables: "IP demo_sdes = [1, 2, 3, 4, 5, 6, 7, 8]" "IPInverse demo_sdes = [1, 2, 3, 4, 5, 6, 7, 8]"
    and noop: "\<forall>v :: int list. length v = 8 \<longrightarrow>
      permute v (IP demo_sdes) = Inr v \<and> permute v (IPInverse demo_sdes) = Inr v"
    by blast+
  from noop len have "permute demo_block (IP demo_sdes) = Inr demo_block"
    "permute demo_block (IPInverse demo_sdes) = Inr demo_block"
    by blast+
  then show ?thesis
    using tables constructor_demo by blast
qed

text \<open>
  Claim C10. For a vector of 4 entries and a P4 table of 4 entries between 1 and 4, the
  P4 routine of the round returns what the general permutation routine returns for the
  table P4, and both return a vector.
\<close>

theorem p4Permutation_is_permute:
  assumes "length v = 4" and "table_ok 4 (P4 C)"
  shows "p4Permutation C v = permute v (P4 C) \<and> (\<exists>w. permute v (P4 C) = Inr w \<and> length w = 4)"
proof -
  have len: "length (P4 C) = 4" using assms(2) by (simp add: table_ok_def)
  have "p4Permutation C v = permute v (P4 C)"
    using assms(1) len by (intro p4Permutation_permute) simp
  moreover have "permute v (P4 C) = Inr (spec_permute v (P4 C))"
    using assms by (intro permute_table_ok [where n = 4]) simp_all
  ultimately show ?thesis
    using len by simp
qed

theorem p4Permutation_is_permute_witness:
  "length [0, 1, 0, 0::int] = 4 \<and> table_ok 4 (P4 demo_sdes)
   \<and> p4Permutation demo_sdes [0, 1, 0, 0::int] = permute [0, 1, 0, 0] (P4 demo_sdes)
   \<and> permute [0, 1, 0, 0::int] (P4 demo_sdes) = Inr [0, 0, 0, 0]"
proof -
  have h: "length [0, 1, 0, 0::int] = 4" "table_ok 4 (P4 demo_sdes)"
    using state_ok_demo by (simp_all add: state_ok_def round_state_ok_def)
  have "permute [0, 1, 0, 0::int] (P4 demo_sdes) = Inr [0, 0, 0, 0]"
    by code_simp
  then show ?thesis
    using p4Permutation_is_permute [OF h] h by simp
qed

subsection \<open>Characters, bytes and bits\<close>

lemma toString2_digits: "set (toString2 n) \<subseteq> {48, 49}"
proof (induction n rule: toString2.induct)
  case (1 n)
  show ?case
  proof (cases "n < 2")
    case True
    then have "toString2 n = [48 + n]" by (subst toString2.simps) simp
    moreover have "n = 0 \<or> n = 1" using True by linarith
    ultimately show ?thesis by auto
  next
    case False
    have "n mod 2 = 0 \<or> n mod 2 = 1" by linarith
    then have "48 + n mod 2 \<in> {48, 49}" by auto
    then show ?thesis
      using 1 False by (subst toString2.simps) simp
  qed
qed

lemma toString2_nonempty: "toString2 n \<noteq> []"
  by (subst toString2.simps) simp

lemma chars_value_append: "chars_value (s @ [c]) = 2 * chars_value s + (int c - 48)"
  by (simp add: chars_value_def)

lemma chars_value_toString2: "chars_value (toString2 n) = int n"
proof (induction n rule: toString2.induct)
  case (1 n)
  show ?case
  proof (cases "n < 2")
    case True
    then show ?thesis by (subst toString2.simps) (simp add: chars_value_def)
  next
    case False
    have "chars_value (toString2 n) = 2 * chars_value (toString2 (n div 2)) + int (n mod 2)"
      using False by (subst toString2.simps) (simp add: chars_value_append)
    also have "\<dots> = 2 * int (n div 2) + int (n mod 2)"
      using 1 False by simp
    also have "\<dots> = int n" by presburger
    finally show ?thesis .
  qed
qed

lemma chars_value_zeros: "chars_value (replicate k 48 @ s) = chars_value s"
proof -
  have "foldl (\<lambda>acc c. 2 * acc + (int c - 48)) 0 (replicate k 48) = 0"
    by (induction k) simp_all
  then show ?thesis by (simp add: chars_value_def)
qed

lemma chars_value_padStart: "chars_value (padStart k (toString2 n)) = int n"
  by (simp add: padStart_def chars_value_zeros chars_value_toString2)

lemma padStart_digits: "set (padStart k (toString2 n)) \<subseteq> {48, 49}"
  using toString2_digits [of n] by (auto simp: padStart_def)

lemma bits_value_map: "bits_value (map (\<lambda>d. int d - 48) s) = chars_value s"
  by (simp add: bits_value_def chars_value_def foldl_map)

lemma bits_value_byte_bits: "bits_value (byte_bits c) = int c"
  by (simp add: byte_bits_def bits_value_map chars_value_padStart)

lemma list_all_bit_byte_bits: "list_all (\<lambda>b. b = 0 \<or> b = 1) (byte_bits c)"
  using padStart_digits [of 8 c]
  by (auto simp: byte_bits_def list_all_iff)

lemma stringToBinary_eq: "stringToBinary s = Inr (concat (map byte_bits s))"
proof -
  have "stringToBinary s
      = Inr (map (\<lambda>d. int d - 48) (concat (map (\<lambda>c. padStart 8 (toString2 c)) s)))"
    unfolding stringToBinary_def
  proof (rule mapE_Inr)
    fix d assume "d \<in> set (concat (map (\<lambda>c. padStart 8 (toString2 c)) s))"
    then have "d = 48 \<or> d = 49" using padStart_digits by fastforce
    then show "digit_of d = Inr (int d - 48)" by (auto simp: digit_of_def)
  qed
  then show ?thesis
    by (simp add: map_concat byte_bits_def [abs_def] comp_def)
qed

lemma length_toString2: "n < 2 ^ k \<Longrightarrow> 0 < k \<Longrightarrow> length (toString2 n) \<le> k"
proof (induction n arbitrary: k rule: toString2.induct)
  case (1 n)
  show ?case
  proof (cases "n < 2")
    case True
    have "toString2 n = [48 + n]" using True by (subst toString2.simps) simp
    then show ?thesis using 1(3) by simp
  next
    case False
    obtain j where j: "k = Suc j" using 1(3) by (cases k) simp_all
    have "0 < j"
    proof (rule ccontr)
      assume "\<not> 0 < j"
      then have "k = 1" using j by simp
      then show False using 1(2) False by simp
    qed
    moreover have "n div 2 < 2 ^ j" using 1(2) j by simp
    ultimately have "length (toString2 (n div 2)) \<le> j"
      using 1(1) [OF False] by blast
    moreover have "toString2 n = toString2 (n div 2) @ [48 + n mod 2]"
      using False by (subst toString2.simps) simp
    ultimately show ?thesis
      using j by simp
  qed
qed

lemma length_padStart_byte: "c \<le> 255 \<Longrightarrow> length (padStart 8 (toString2 c)) = 8"
  using length_toString2 [of c 8] by (simp add: padStart_def)

lemma is_bits_byte_bits: "c \<le> 255 \<Longrightarrow> is_bits 8 (byte_bits c)"
  using list_all_bit_byte_bits [of c]
  by (simp add: is_bits_def byte_bits_def length_padStart_byte)

lemma bits_value_append: "bits_value (bs @ [d]) = 2 * bits_value bs + d"
  by (simp add: bits_value_def)

lemma bits_value_bounds:
  "list_all (\<lambda>b. b = 0 \<or> b = 1) bs \<Longrightarrow> 0 \<le> bits_value bs \<and> bits_value bs < 2 ^ length bs"
proof (induction bs rule: rev_induct)
  case Nil
  then show ?case by (simp add: bits_value_def)
next
  case (snoc d bs)
  then have "d = 0 \<or> d = 1" and "0 \<le> bits_value bs" and "bits_value bs < 2 ^ length bs"
    by simp_all
  then show ?case
    by (auto simp: bits_value_append)
qed

lemma padStart_snoc: "padStart (Suc k) (s @ [x]) = padStart k s @ [x]"
  by (simp add: padStart_def)

lemma bit_chars_of_value:
  "bs \<noteq> [] \<Longrightarrow> list_all (\<lambda>b. b = 0 \<or> b = 1) bs
    \<Longrightarrow> padStart (length bs) (toString2 (nat (bits_value bs))) = bit_chars bs"
proof (induction bs rule: rev_induct)
  case Nil
  then show ?case by simp
next
  case (snoc d bs)
  have d: "d = 0 \<or> d = 1" and all: "list_all (\<lambda>b. b = 0 \<or> b = 1) bs"
    using snoc.prems(2) by simp_all
  have v: "0 \<le> bits_value bs" using bits_value_bounds [OF all] by simp
  have last: "toString2 (nat d) = [48 + nat d]"
    using d by (subst toString2.simps) auto
  show ?case
  proof (cases "bs = []")
    case True
    then show ?thesis
      using d last by (auto simp: bits_value_def padStart_def bit_chars_def)
  next
    case False
    from snoc.IH [OF False all]
    have ih: "padStart (length bs) (toString2 (nat (bits_value bs))) = bit_chars bs" .
    show ?thesis
    proof (cases "bits_value bs = 0")
      case True
      have "toString2 0 = [48]" by (subst toString2.simps) simp
      then have "bit_chars bs = replicate (length bs - 1) 48 @ [48]"
        using ih True by (simp add: padStart_def)
      also have "\<dots> = replicate (length bs) 48"
        using False by (cases bs) (simp_all add: replicate_append_same)
      finally have "bit_chars bs = replicate (length bs) 48" .
      then show ?thesis
        using True last by (simp add: bits_value_append padStart_def bit_chars_def)
    next
      case nz: False
      define m where "m = nat (bits_value bs)"
      have m: "0 < m" "bits_value bs = int m" using v nz by (simp_all add: m_def)
      have n: "nat (2 * int m + d) = 2 * m + nat d" using d by auto
      have "\<not> 2 * m + nat d < 2" using m(1) by simp
      then have "toString2 (2 * m + nat d)
          = toString2 ((2 * m + nat d) div 2) @ [48 + (2 * m + nat d) mod 2]"
        by (subst toString2.simps) simp
      also have "(2 * m + nat d) div 2 = m" using d by auto
      also have "(2 * m + nat d) mod 2 = nat d" using d by auto
      finally have "toString2 (nat (bits_value (bs @ [d]))) = toString2 m @ [48 + nat d]"
        by (simp add: bits_value_append m(2) n)
      then have "padStart (length (bs @ [d])) (toString2 (nat (bits_value (bs @ [d]))))
          = padStart (length bs) (toString2 m) @ [48 + nat d]"
        by (simp add: padStart_snoc)
      then show ?thesis
        using ih by (simp add: m_def bit_chars_def)
    qed
  qed
qed

lemma byte_bits_of_value:
  assumes "is_bits 8 bs"
  shows "byte_bits (nat (bits_value bs)) = bs"
proof -
  have ne: "bs \<noteq> []" and all: "list_all (\<lambda>b. b = 0 \<or> b = 1) bs" and len: "length bs = 8"
    using assms by (auto simp: is_bits_def)
  have "padStart 8 (toString2 (nat (bits_value bs))) = bit_chars bs"
    using bit_chars_of_value [OF ne all] len by simp
  then have "byte_bits (nat (bits_value bs)) = map (\<lambda>d. int d - 48) (bit_chars bs)"
    by (simp add: byte_bits_def)
  also have "\<dots> = map (\<lambda>b. b) bs"
    unfolding bit_chars_def map_map
    using all by (intro map_cong) (auto simp: list_all_iff)
  finally show ?thesis by simp
qed

lemma value_of_byte:
  assumes "is_bits 8 bs"
  shows "0 \<le> bits_value bs" and "bits_value bs < 256"
  using bits_value_bounds [of bs] assms by (simp_all add: is_bits_def)

subsection \<open>Iterating over blocks and bytes\<close>

lemma block_loop_blocks:
  assumes "\<And>b. b \<in> set bss \<Longrightarrow> length b = 8 \<and> f b = Inr (g b)"
  shows "block_loop f (pre @ concat bss) (length pre) acc = Inr (acc @ concat (map g bss))"
  using assms
proof (induction bss arbitrary: pre acc)
  case Nil
  show ?case by (subst block_loop.simps) simp
next
  case (Cons b bss)
  have b: "length b = 8" "f b = Inr (g b)" using Cons.prems [of b] by simp_all
  have sl: "slice_js (pre @ concat (b # bss)) (length pre) (length pre + 8) = b"
    using b(1) by (simp add: slice_js_def)
  have "block_loop f ((pre @ b) @ concat bss) (length (pre @ b)) (acc @ g b)
      = Inr ((acc @ g b) @ concat (map g bss))"
    using Cons.prems by (intro Cons.IH) simp
  then have next_step: "block_loop f (pre @ concat (b # bss)) (length pre + 8) (acc @ g b)
      = Inr (acc @ concat (map g (b # bss)))"
    using b(1) by simp
  have cond: "length pre < length (pre @ concat (b # bss))"
    using b(1) by simp
  show ?case
    by (subst block_loop.simps) (simp only: cond if_True sl b(2) sum.case next_step)
qed

lemma bit_chars_digits:
  "list_all (\<lambda>b. b = 0 \<or> b = 1) bs \<Longrightarrow> set (bit_chars bs) \<subseteq> {48, 49}"
  by (auto simp: bit_chars_def list_all_iff)

lemma chars_value_bit_chars:
  "list_all (\<lambda>b. b = 0 \<or> b = 1) bs \<Longrightarrow> chars_value (bit_chars bs) = bits_value bs"
proof (induction bs rule: rev_induct)
  case Nil
  then show ?case by (simp add: chars_value_def bit_chars_def bits_value_def)
next
  case (snoc d bs)
  then have "d = 0 \<or> d = 1" and "chars_value (bit_chars bs) = bits_value bs" by simp_all
  then show ?case
    using chars_value_append [of "bit_chars bs" "48 + nat d"]
    by (auto simp: bit_chars_def bits_value_append)
qed

lemma parseInt2_digits:
  assumes "s \<noteq> []" and "set s \<subseteq> {48, 49}"
  shows "parseInt2 s = Inr (chars_value s)"
proof -
  obtain c t where s: "s = c # t" using assms(1) by (cases s) simp_all
  have c: "c = 48 \<or> c = 49" using assms(2) s by simp
  have tw: "takeWhile (\<lambda>c. c = 48 \<or> c = 49) s = s"
    using assms(2) by (auto simp: takeWhile_eq_all_conv)
  have sign: "c \<noteq> 45" "c \<noteq> 43" using c by auto
  have "parseInt2 (c # t) = Inr (chars_value (c # t))"
    using tw sign unfolding s parseInt2_def chars_value_def
    by (simp add: Let_def)
  then show ?thesis by (simp add: s)
qed

lemma parseInt2_bit_chars:
  assumes "is_bits 8 bs"
  shows "parseInt2 (bit_chars bs) = Inr (bits_value bs)"
proof -
  have all: "list_all (\<lambda>b. b = 0 \<or> b = 1) bs" and ne: "bit_chars bs \<noteq> []"
    using assms by (auto simp: is_bits_def bit_chars_def)
  show ?thesis
    using parseInt2_digits [OF ne bit_chars_digits [OF all]] chars_value_bit_chars [OF all]
    by simp
qed

lemma fromCharCode_byte: "is_bits 8 bs \<Longrightarrow> fromCharCode (bits_value bs) = [nat (bits_value bs)]"
  using value_of_byte [of bs] by (simp add: fromCharCode_def)

lemma string_loop_blocks:
  assumes "\<And>b. b \<in> set bss \<Longrightarrow> is_bits 8 b"
  shows "string_loop (pre @ concat (map bit_chars bss)) (length pre) out
    = Inr (out @ map (\<lambda>b. nat (bits_value b)) bss)"
  using assms
proof (induction bss arbitrary: pre out)
  case Nil
  show ?case by (subst string_loop.simps) simp
next
  case (Cons b bss)
  have b: "is_bits 8 b" using Cons.prems [of b] by simp
  have len: "length (bit_chars b) = 8" using b by (simp add: bit_chars_def is_bits_def)
  have sl: "slice_js (pre @ concat (map bit_chars (b # bss))) (length pre) (length pre + 8)
      = bit_chars b"
    using len by (simp add: slice_js_def)
  have "string_loop ((pre @ bit_chars b) @ concat (map bit_chars bss)) (length (pre @ bit_chars b))
        (out @ [nat (bits_value b)])
      = Inr ((out @ [nat (bits_value b)]) @ map (\<lambda>b. nat (bits_value b)) bss)"
    using Cons.prems by (intro Cons.IH) simp
  then have next_step: "string_loop (pre @ concat (map bit_chars (b # bss))) (length pre + 8)
        (out @ fromCharCode (bits_value b))
      = Inr (out @ map (\<lambda>b. nat (bits_value b)) (b # bss))"
    using len by (simp add: fromCharCode_byte [OF b])
  have cond: "length pre < length (pre @ concat (map bit_chars (b # bss)))"
    using len by simp
  show ?case
    by (subst string_loop.simps)
      (simp only: cond if_True sl parseInt2_bit_chars [OF b] sum.case next_step)
qed

lemma num_toString_bit: "b = 0 \<or> b = 1 \<Longrightarrow> num_toString b = [48 + nat b]"
  by (auto simp: num_toString_def toString10.simps)

lemma join_bits:
  "list_all (\<lambda>b. b = 0 \<or> b = 1) bs \<Longrightarrow> concat (map num_toString bs) = bit_chars bs"
  by (induction bs) (simp_all add: bit_chars_def num_toString_bit)

lemma binaryToString_blocks:
  assumes "\<And>b. b \<in> set bss \<Longrightarrow> is_bits 8 b"
  shows "binaryToString (concat bss) = Inr (map (\<lambda>b. nat (bits_value b)) bss)"
proof -
  have "list_all (\<lambda>b. b = 0 \<or> b = 1) (concat bss)"
    using assms by (fastforce simp: list_all_iff is_bits_def)
  then have "concat (map num_toString (concat bss)) = bit_chars (concat bss)"
    by (rule join_bits)
  also have "\<dots> = concat (map bit_chars bss)"
    by (simp add: bit_chars_def [abs_def] map_concat)
  finally have "binaryToString (concat bss) = string_loop ([] @ concat (map bit_chars bss)) (length ([]::jstring)) []"
    by (simp add: binaryToString_def)
  also have "\<dots> = Inr ([] @ map (\<lambda>b. nat (bits_value b)) bss)"
    using assms by (rule string_loop_blocks)
  finally show ?thesis by simp
qed

lemma text_pass:
  assumes "\<And>c. c \<in> set s \<Longrightarrow>
    is_bits 8 (byte_bits c) \<and> f (byte_bits c) = Inr (g (byte_bits c)) \<and> is_bits 8 (g (byte_bits c))"
  shows "bindE (stringToBinary s) (\<lambda>bs. bindE (block_loop f bs 0 []) binaryToString)
    = Inr (map (\<lambda>c. nat (bits_value (g (byte_bits c)))) s)"
proof -
  have "block_loop f ([] @ concat (map byte_bits s)) (length ([]::int list)) []
      = Inr ([] @ concat (map g (map byte_bits s)))"
    using assms by (intro block_loop_blocks) (auto simp: is_bits_def)
  then have bl: "block_loop f (concat (map byte_bits s)) 0 [] = Inr (concat (map g (map byte_bits s)))"
    by simp
  have "binaryToString (concat (map g (map byte_bits s)))
      = Inr (map (\<lambda>b. nat (bits_value b)) (map g (map byte_bits s)))"
    using assms by (intro binaryToString_blocks) auto
  then show ?thesis
    by (simp add: stringToBinary_eq bl comp_def)
qed

lemma encryptText_demo: "encryptText demo_sdes [104, 105] = Inr [121, 105]"
  by code_simp

lemma decryptText_demo: "decryptText demo_sdes [121, 105] = Inr [104, 105]"
  by code_simp

subsection \<open>Text: the claim\<close>

text \<open>
  Claim C2. For every instance the constructor builds from a 10-bit key and every
  string whose characters all have codes 0 to 255, \<open>encryptText\<close> returns a string and
  \<open>decryptText\<close> of that string returns the original string.
\<close>

theorem text_round_trip:
  assumes k: "is_bits 10 k" and r: "rng_ok r" and s: "single_byte s"
  shows "\<exists>C r'. constructor k r = Inr (C, r')
    \<and> (\<exists>t. encryptText C s = Inr t \<and> decryptText C t = Inr s)"
proof -
  from constructor_ok [OF r k] obtain C r' where
    c: "constructor k r = Inr (C, r')" and ok: "state_ok C"
    and ip: "IP C = [1, 2, 3, 4, 5, 6, 7, 8]" and ipi: "IPInverse C = [1, 2, 3, 4, 5, 6, 7, 8]"
    by blast
  have k1: "is_bits 8 (key1 (subKeys C))" and k2: "is_bits 8 (key2 (subKeys C))"
    using state_ok_subKeys [OF ok] by simp_all
  have rs: "round_state_ok C" using ok by (simp add: state_ok_def)
  define E where "E = spec_block C (key1 (subKeys C)) (key2 (subKeys C))"
  define D where "D = spec_block C (key2 (subKeys C)) (key1 (subKeys C))"
  define t where "t = map (\<lambda>c. nat (bits_value (E (byte_bits c)))) s"
  have byte: "is_bits 8 (byte_bits c)" if "c \<in> set s" for c
    using that s by (intro is_bits_byte_bits) (simp add: single_byte_def list_all_iff)
  have E: "encrypt C b = Inr (E b)" "is_bits 8 (E b)" "D (E b) = b" if "is_bits 8 b" for b
    unfolding E_def D_def
    using that ok k1 k2 rs ip ipi
    by (simp_all add: encrypt_eq is_bits_spec_block spec_block_inverse)
  have D: "decrypt C b = Inr (D b)" "is_bits 8 (D b)" if "is_bits 8 b" for b
    unfolding D_def using that ok k1 k2 by (simp_all add: decrypt_eq is_bits_spec_block)
  have enc: "encryptText C s = Inr t"
    unfolding encryptText_def t_def
    using byte E by (intro text_pass) simp
  have recode: "byte_bits (nat (bits_value (E (byte_bits c)))) = E (byte_bits c)" if "c \<in> set s" for c
    using byte [OF that] E(2) by (simp add: byte_bits_of_value)
  have "decryptText C t = Inr (map (\<lambda>c. nat (bits_value (D (byte_bits c)))) t)"
    unfolding decryptText_def
  proof (rule text_pass)
    fix c' assume "c' \<in> set t"
    then obtain c where c: "c \<in> set s" "c' = nat (bits_value (E (byte_bits c)))"
      by (auto simp: t_def)
    have "is_bits 8 (byte_bits c')"
      using recode [OF c(1)] byte [OF c(1)] E(2) c(2) by simp
    then show "is_bits 8 (byte_bits c') \<and> decrypt C (byte_bits c') = Inr (D (byte_bits c'))
        \<and> is_bits 8 (D (byte_bits c'))"
      using D by simp
  qed
  also have "map (\<lambda>c. nat (bits_value (D (byte_bits c)))) t = map (\<lambda>c. c) s"
    unfolding t_def map_map
  proof (rule map_cong [OF refl])
    fix c assume c: "c \<in> set s"
    from recode [OF c] show "((\<lambda>c. nat (bits_value (D (byte_bits c)))) \<circ> (\<lambda>c. nat (bits_value (E (byte_bits c))))) c = c"
      using E(3) [OF byte [OF c]] by (simp add: bits_value_byte_bits)
  qed
  finally have "decryptText C t = Inr s" by simp
  then show ?thesis
    using c enc by blast
qed

theorem text_round_trip_witness:
  "is_bits 10 demo_key \<and> rng_ok demo_rng \<and> single_byte [104, 105]
   \<and> constructor demo_key demo_rng = Inr (demo_sdes, demo_rng)
   \<and> encryptText demo_sdes [104, 105] = Inr [121, 105]
   \<and> decryptText demo_sdes [121, 105] = Inr [104, 105]"
proof -
  have h: "is_bits 10 demo_key" "rng_ok demo_rng" "single_byte [104, 105]"
    by (simp_all add: is_bits_def demo_key_def rng_ok_demo single_byte_def)
  from text_round_trip [OF h] obtain t where
    "encryptText demo_sdes [104, 105] = Inr t" "decryptText demo_sdes t = Inr [104, 105]"
    by (auto simp: constructor_demo)
  moreover have "encryptText demo_sdes [104, 105] = Inr [121, 105]"
    by code_simp
  ultimately show ?thesis
    using h constructor_demo by simp
qed

end
